theory Spec2Isabelle
  imports Main "HOL-Library.AList" "HOL-Library.Multiset"
begin

text \<open>
  A model of \<open>src/client.ts\<close>: the classes \<open>BaseClient\<close>, \<open>XTBClient\<close> and
  \<open>StreamingXTBClient\<close> of the XTB API client. The client object is a record, each method a
  function from the client to the client it leaves behind, and each callback that the
  runtime invokes (a frame on the socket, a timer, the completion of a send) an event that
  is applied to the client. The WebSocket and the throttling of sends are libraries: what
  they report to the client is an input of the model.
\<close>

section \<open>JSON values\<close>

text \<open>
  Frames on the wire are JSON texts. \<open>JSON.stringify\<close> and \<open>JSON.parse\<close> belong to the
  runtime, so an outbound frame is modelled by the object that is serialised and an inbound
  frame by the value that parsing yields (or by \<open>Garbage\<close> when the text does not parse).
  Objects keep their keys in insertion order and hold each key once. Numbers are only passed
  through by the client; they are modelled as integers.
\<close>

datatype json =
    JNull
  | JBool bool
  | JNum int
  | JStr string
  | JArr "json list"
  | JObj "(string \<times> json) list"

type_synonym obj = "(string \<times> json) list"

text \<open>Property access \<open>v.k\<close> on a parsed value that is not \<open>null\<close>: \<open>None\<close> is \<open>undefined\<close>.\<close>

fun field :: "json \<Rightarrow> string \<Rightarrow> json option" where
  "field (JObj kvs) k = map_of kvs k"
| "field _ k = None"

text \<open>JavaScript truthiness of a value that may be \<open>undefined\<close> or \<open>null\<close> (both \<open>None\<close>).\<close>

fun truthy :: "json option \<Rightarrow> bool" where
  "truthy None = False"
| "truthy (Some JNull) = False"
| "truthy (Some (JBool b)) = b"
| "truthy (Some (JNum n)) = (n \<noteq> 0)"
| "truthy (Some (JStr s)) = (s \<noteq> [])"
| "truthy (Some (JArr _)) = True"
| "truthy (Some (JObj _)) = True"

text \<open>Object spread \<open>{...target, ...src}\<close>: a key already present is overwritten in place,
  a new key is appended.\<close>

definition spread :: "obj \<Rightarrow> obj \<Rightarrow> obj" where
  "spread target src = foldl (\<lambda>acc (k, v). AList.update k v acc) target src"

section \<open>Errors, promises, listeners\<close>

text \<open>\<open>Error s\<close> is \<open>new Error(s)\<close> for a string \<open>s\<close>; \<open>ErrorOf v\<close> is \<open>new Error(v)\<close> for a
  value that is not a string (its message is the runtime's string conversion of \<open>v\<close>).\<close>

datatype error = Error string | ErrorOf json

fun new_Error :: "json option \<Rightarrow> error" where
  "new_Error None = Error []"
| "new_Error (Some (JStr s)) = Error s"
| "new_Error (Some v) = ErrorOf v"

text \<open>A promise is pending, resolved with a reply, resolved with \<open>undefined\<close> (\<open>Done\<close>, the
  result of a completed send) or rejected.\<close>

datatype outcome = Pending | Resolved json | Done | Rejected error

text \<open>The listeners on the socket's \<open>message\<close> event: the streaming client's dispatcher, and
  the closure \<open>onData\<close> of one correlated call, identified by the call's promise and holding
  the call's \<open>requestId\<close>.\<close>

datatype listener = ProcessMessage | OnData nat string

text \<open>Who awaits the promise of a throttled send: the executor of a correlated call (promise,
  tag, timeout in ms), the \<open>open\<close> handler awaiting the first ping, the interval callback
  awaiting a periodic ping inside \<open>try\<close>, or nobody (\<open>Dropped\<close>: the promise is discarded by
  client code). A send whose promise is handed to the caller has no entry.\<close>

datatype awaiter = CallExec nat string nat | OpenPing | TickPing | Dropped

datatype effect =
    Emit string "json option"
  | ConsoleWarn json
  | ConsoleError error
  | UnhandledRejection error
  | Uncaught
  | WsPing
  | WsCloseCall

datatype wsdata = Garbage | Json json

datatype send_result = SendOk | SendFailed error

datatype XTBMode = Demo | Real

record ClientConfig =
  pingInterval :: "nat option"
  commandThrottleInterval :: "nat option"

text \<open>
  The client object. \<open>pingIntervalHandle\<close> is \<open>_pingInterval\<close> (the period of the armed
  interval, \<open>None\<close> for \<open>null\<close>); \<open>intervalCleared\<close> records \<open>clearInterval\<close>, which leaves the
  field itself untouched. \<open>queue\<close> holds the frames handed to the throttled sender that it
  has not yet passed to the socket, each with the promise it returned. \<open>timers\<close> holds the
  armed per-call timeouts. \<open>sent\<close> and \<open>log\<close> record what reached the socket and the
  observable effects (emitted events, console output, unhandled rejections).
\<close>

record client =
  mode :: XTBMode
  streaming :: bool
  config :: ClientConfig
  isLoggedIn :: bool
  streamSessionId :: "json option"
  pingIntervalHandle :: "nat option"
  intervalCleared :: bool
  ws_listeners :: "listener list"
  next_id :: nat
  promises :: "nat \<rightharpoonup> outcome"
  queue :: "(obj \<times> nat) list"
  awaiting :: "nat \<rightharpoonup> awaiter"
  timers :: "nat \<rightharpoonup> (string \<times> nat)"
  sent :: "obj list"
  log :: "effect list"

text \<open>Settling a promise: \<open>resolve\<close> and \<open>reject\<close> act on a pending promise only.\<close>

definition settle :: "nat \<Rightarrow> outcome \<Rightarrow> (nat \<rightharpoonup> outcome) \<Rightarrow> (nat \<rightharpoonup> outcome)" where
  "settle p v m = (if m p = Some Pending then m(p \<mapsto> v) else m)"

text \<open>\<open>EventEmitter.off\<close> removes the most recently added instance of the listener.\<close>

definition removeListener :: "listener \<Rightarrow> listener list \<Rightarrow> listener list" where
  "removeListener l ls = rev (remove1 l (rev ls))"

section \<open>BaseClient\<close>

definition endpoint :: "XTBMode \<Rightarrow> bool \<Rightarrow> string" where
  "endpoint m s =
     ''wss://ws.xtb.com/'' @ (case m of Demo \<Rightarrow> ''demo'' | Real \<Rightarrow> ''real'')
       @ (if s then ''Stream'' else [])"

definition throttleInterval :: "ClientConfig \<Rightarrow> nat" where
  "throttleInterval cfg = (case commandThrottleInterval cfg of None \<Rightarrow> 250 | Some n \<Rightarrow> n)"

definition pingPeriod :: "ClientConfig \<Rightarrow> nat" where
  "pingPeriod cfg = (case pingInterval cfg of None \<Rightarrow> 10000 | Some n \<Rightarrow> n)"

text \<open>The constructor. A missing \<open>config\<close> is the record with both fields \<open>None\<close>.\<close>

definition new_BaseClient :: "XTBMode \<Rightarrow> bool \<Rightarrow> ClientConfig \<Rightarrow> client" where
  "new_BaseClient m s cfg =
     \<lparr> mode = m, streaming = s, config = cfg, isLoggedIn = False, streamSessionId = None,
       pingIntervalHandle = None, intervalCleared = False, ws_listeners = [], next_id = 0,
       promises = Map.empty, queue = [], awaiting = Map.empty, timers = Map.empty,
       sent = [], log = [] \<rparr>"

text \<open>\<open>_sendThrottled(message)\<close>: the throttled sender (the p-throttle library) takes the
  frame and returns a promise; when it passes the frame to \<open>sendMessage\<close> is its decision
  (event \<open>SendDone\<close> below).\<close>

definition sendThrottled :: "obj \<Rightarrow> client \<Rightarrow> client \<times> nat" where
  "sendThrottled message st =
     (let q = next_id st in
        (st\<lparr> next_id := q + 1,
             promises := (promises st)(q \<mapsto> Pending),
             queue := queue st @ [(message, q)] \<rparr>, q))"

definition sendCommand :: "obj \<Rightarrow> client \<Rightarrow> client \<times> nat" where
  "sendCommand data st = sendThrottled data st"

text \<open>\<open>sendCommandAndAwaitResponse\<close>. \<open>requestId\<close> is the string that
  \<open>Math.random().toString(36)\<close> yields for this call, an input of the model. The executor
  registers \<open>onData\<close>, hands the tagged frame to the throttled sender and awaits it; the
  timeout is armed by the awaiter when the send has completed.\<close>

definition sendCommandAndAwaitResponse ::
  "string \<Rightarrow> obj \<Rightarrow> nat option \<Rightarrow> client \<Rightarrow> client \<times> nat" where
  "sendCommandAndAwaitResponse requestId data tmo st =
     (let message = AList.update ''customTag'' (JStr requestId) data;
          p = next_id st;
          st1 = st\<lparr> next_id := p + 1,
                    promises := (promises st)(p \<mapsto> Pending),
                    ws_listeners := ws_listeners st @ [OnData p requestId] \<rparr>;
          (st2, q) = sendThrottled message st1
      in (st2\<lparr> awaiting := (awaiting st2)(q \<mapsto>
                  CallExec p requestId (case tmo of None \<Rightarrow> 5000 | Some n \<Rightarrow> n)) \<rparr>, p))"

definition ping :: "client \<Rightarrow> client \<times> nat" where
  "ping st =
     sendCommand
       (spread [(''command'', JStr ''ping'')]
          (case streamSessionId st of
             None \<Rightarrow> []
           | Some v \<Rightarrow> if truthy (Some v) then [(''streamSessionId'', v)] else []))
       (st\<lparr> log := log st @ [WsPing] \<rparr>)"

text \<open>The handler of the socket's \<open>open\<close> event installed by the constructor.\<close>

definition onOpen :: "client \<Rightarrow> client" where
  "onOpen st =
     (let (st1, q) = ping (st\<lparr> log := log st @ [Emit ''open'' None] \<rparr>)
      in st1\<lparr> awaiting := (awaiting st1)(q \<mapsto> OpenPing) \<rparr>)"

text \<open>The callback of \<open>setInterval\<close>; it runs only while the interval is armed.\<close>

definition onTick :: "client \<Rightarrow> client" where
  "onTick st =
     (if pingIntervalHandle st \<noteq> None \<and> \<not> intervalCleared st
      then (let (st1, q) = ping st in st1\<lparr> awaiting := (awaiting st1)(q \<mapsto> TickPing) \<rparr>)
      else st)"

text \<open>What the code awaiting a send does when the send has completed.\<close>

fun resume :: "awaiter option \<Rightarrow> send_result \<Rightarrow> client \<Rightarrow> client" where
  "resume (Some (CallExec p tag ms)) SendOk st = st\<lparr> timers := (timers st)(p \<mapsto> (tag, ms)) \<rparr>"
| "resume (Some (CallExec p tag ms)) (SendFailed e) st =
     st\<lparr> log := log st @ [UnhandledRejection e] \<rparr>"
| "resume (Some OpenPing) SendOk st =
     st\<lparr> pingIntervalHandle := Some (pingPeriod (config st)), intervalCleared := False \<rparr>"
| "resume (Some OpenPing) (SendFailed e) st = st\<lparr> log := log st @ [UnhandledRejection e] \<rparr>"
| "resume (Some TickPing) SendOk st = st"
| "resume (Some TickPing) (SendFailed e) st = st\<lparr> log := log st @ [ConsoleError e] \<rparr>"
| "resume (Some Dropped) SendOk st = st"
| "resume (Some Dropped) (SendFailed e) st = st\<lparr> log := log st @ [UnhandledRejection e] \<rparr>"
| "resume None r st = st"

text \<open>The throttled sender passes the \<open>k\<close>-th waiting frame to \<open>sendMessage\<close>, and the
  socket's \<open>send\<close> reports \<open>r\<close>: the send's promise is settled and its awaiter resumes.\<close>

definition sendDone :: "nat \<Rightarrow> send_result \<Rightarrow> client \<Rightarrow> client" where
  "sendDone k r st =
     (if k < length (queue st) then
        (let (message, q) = queue st ! k;
             st1 = st\<lparr> queue := take k (queue st) @ drop (Suc k) (queue st) \<rparr>;
             st2 = (case r of
                      SendOk \<Rightarrow> st1\<lparr> sent := sent st1 @ [message],
                                       promises := settle q Done (promises st1) \<rparr>
                    | SendFailed e \<Rightarrow> st1\<lparr> promises := settle q (Rejected e) (promises st1) \<rparr>)
         in resume (awaiting st2 q) r st2)
      else st)"

text \<open>The callback of a call's \<open>setTimeout\<close>.\<close>

definition onTimeout :: "nat \<Rightarrow> client \<Rightarrow> client" where
  "onTimeout p st =
     (case timers st p of
        None \<Rightarrow> st
      | Some (tag, ms) \<Rightarrow>
          st\<lparr> timers := (timers st)(p := None),
               ws_listeners := removeListener (OnData p tag) (ws_listeners st),
               promises := settle p (Rejected (Error ''Timeout'')) (promises st) \<rparr>)"

definition close :: "client \<Rightarrow> client" where
  "close st =
     (let st1 = (if pingIntervalHandle st \<noteq> None then st\<lparr> intervalCleared := True \<rparr> else st)
      in st1\<lparr> log := log st1 @ [WsCloseCall, Emit ''close'' None] \<rparr>)"

section \<open>StreamingXTBClient: dispatch of pushed frames\<close>

definition channel_event :: "string \<Rightarrow> string option" where
  "channel_event c =
     (if c = ''keepAlive'' then Some ''keepAliveFromServer''
      else if c = ''balance'' then Some ''balance''
      else if c = ''candle'' then Some ''candle''
      else if c = ''news'' then Some ''news''
      else if c = ''profits'' then Some ''profits''
      else if c = ''tickPrices'' then Some ''tickPrices''
      else if c = ''trade'' then Some ''trade''
      else if c = ''tradeStatus'' then Some ''tradeStatus''
      else None)"

text \<open>What the \<open>switch\<close> of \<open>processMessage\<close> does with a parsed frame: it emits the event of
  a recognised channel with the frame's \<open>data\<close>, or warns about an unknown message.\<close>

definition push_effect :: "json \<Rightarrow> effect" where
  "push_effect message =
     (case field message ''command'' of
        Some (JStr c) \<Rightarrow>
          (case channel_event c of
             Some ev \<Rightarrow> Emit ev (field message ''data'')
           | None \<Rightarrow> ConsoleWarn message)
      | _ \<Rightarrow> ConsoleWarn message)"

definition processMessage :: "json \<Rightarrow> client \<Rightarrow> client" where
  "processMessage message st = st\<lparr> log := log st @ [push_effect message] \<rparr>"

section \<open>Inbound frames\<close>

text \<open>Every listener starts with \<open>JSON.parse(data.toString())\<close> and a property access on the
  result: it throws when the text does not parse or parses to \<open>null\<close>.\<close>

fun parse :: "wsdata \<Rightarrow> json option" where
  "parse Garbage = None"
| "parse (Json JNull) = None"
| "parse (Json j) = Some j"

fun run_listener :: "listener \<Rightarrow> json \<Rightarrow> client \<Rightarrow> client" where
  "run_listener ProcessMessage j st = processMessage j st"
| "run_listener (OnData p requestId) j st =
     (if field j ''customTag'' = Some (JStr requestId)
      then st\<lparr> ws_listeners := removeListener (OnData p requestId) (ws_listeners st),
                promises := settle p (Resolved j) (promises st) \<rparr>
      else st)"

text \<open>\<open>emit('message', data)\<close> calls the listeners registered at that moment, in order of
  registration; a listener that throws ends the emit.\<close>

fun emit_message :: "listener list \<Rightarrow> wsdata \<Rightarrow> client \<Rightarrow> client" where
  "emit_message [] d st = st"
| "emit_message (l # ls) d st =
     (case parse d of
        None \<Rightarrow> st\<lparr> log := log st @ [Uncaught] \<rparr>
      | Some j \<Rightarrow> emit_message ls d (run_listener l j st))"

definition onMessage :: "wsdata \<Rightarrow> client \<Rightarrow> client" where
  "onMessage d st = emit_message (ws_listeners st) d st"

section \<open>XTBClient: the command session\<close>

definition new_XTBClient :: "XTBMode \<Rightarrow> ClientConfig \<Rightarrow> client" where
  "new_XTBClient m cfg = new_BaseClient m False cfg"

text \<open>An \<open>async\<close> method that awaits a correlated call is modelled in two parts: the part
  up to the \<open>await\<close>, which returns the promise awaited (or \<open>Inl e\<close> when the method throws
  before it, so that its own promise is rejected with \<open>e\<close>), and the part after it, applied
  to what the \<open>await\<close> yields (\<open>Inl e\<close> when the awaited promise was rejected).\<close>

definition login :: "string \<Rightarrow> string \<Rightarrow> string \<Rightarrow> string option \<Rightarrow> client \<Rightarrow> client \<times> nat" where
  "login requestId userId password appName st =
     sendCommandAndAwaitResponse requestId
       [(''command'', JStr ''login''),
        (''arguments'', JObj [(''userId'', JStr userId), (''password'', JStr password),
           (''appName'', JStr (case appName of None \<Rightarrow> ''xtb-node-ws-api'' | Some a \<Rightarrow> a))])]
       None st"

definition login_resume :: "error + json \<Rightarrow> client \<Rightarrow> client \<times> (error + json)" where
  "login_resume r st =
     (case r of
        Inl e \<Rightarrow> (st, Inl e)
      | Inr response \<Rightarrow>
          ((if truthy (field response ''status'')
            then st\<lparr> isLoggedIn := True, streamSessionId := field response ''streamSessionId'' \<rparr>
            else st), Inr response))"

definition logout :: "string \<Rightarrow> client \<Rightarrow> client \<times> nat" where
  "logout requestId st =
     (let (st1, p) = sendCommandAndAwaitResponse requestId [(''command'', JStr ''logout'')] None st
      in (st1\<lparr> isLoggedIn := False \<rparr>, p))"

text \<open>The code after the \<open>await\<close> in the business commands: the reply's \<open>returnData\<close>, or
  an error made of its \<open>errorDescr\<close>.\<close>

definition returnData_or_throw :: "error + json \<Rightarrow> error + json option" where
  "returnData_or_throw r =
     (case r of
        Inl e \<Rightarrow> Inl e
      | Inr res \<Rightarrow>
          if truthy (field res ''status'') then Inr (field res ''returnData'')
          else Inl (new_Error (field res ''errorDescr'')))"

definition getAllSymbols :: "string \<Rightarrow> client \<Rightarrow> client \<times> (error + nat)" where
  "getAllSymbols requestId st =
     (if \<not> isLoggedIn st then (st, Inl (Error ''Not logged in''))
      else (let (st1, p) = sendCommandAndAwaitResponse requestId
                  [(''command'', JStr ''getAllSymbols'')] None st
            in (st1, Inr p)))"

definition getSymbol :: "string \<Rightarrow> string \<Rightarrow> client \<Rightarrow> client \<times> (error + nat)" where
  "getSymbol requestId symbol st =
     (if \<not> isLoggedIn st then (st, Inl (Error ''Not logged in''))
      else (let (st1, p) = sendCommandAndAwaitResponse requestId
                  [(''command'', JStr ''getSymbol''),
                   (''arguments'', JObj [(''symbol'', JStr symbol)])] None st
            in (st1, Inr p)))"

definition startTradeTransaction :: "string \<Rightarrow> json \<Rightarrow> client \<Rightarrow> client \<times> (error + nat)" where
  "startTradeTransaction requestId transaction st =
     (if \<not> isLoggedIn st then (st, Inl (Error ''Not logged in''))
      else (let (st1, p) = sendCommandAndAwaitResponse requestId
                  [(''command'', JStr ''tradeTransaction''),
                   (''arguments'', JObj [(''transaction'', transaction)])] None st
            in (st1, Inr p)))"

definition getTradeTransactionStatus :: "string \<Rightarrow> int \<Rightarrow> client \<Rightarrow> client \<times> (error + nat)" where
  "getTradeTransactionStatus requestId order st =
     (if \<not> isLoggedIn st then (st, Inl (Error ''Not logged in''))
      else (let (st1, p) = sendCommandAndAwaitResponse requestId
                  [(''command'', JStr ''getTradeTransactionStatus''),
                   (''arguments'', JObj [(''order'', JNum order)])] None st
            in (st1, Inr p)))"

section \<open>StreamingXTBClient: subscriptions\<close>

definition new_StreamingXTBClient :: "XTBMode \<Rightarrow> string \<Rightarrow> ClientConfig \<Rightarrow> client" where
  "new_StreamingXTBClient m sid cfg =
     (new_BaseClient m True cfg)\<lparr> streamSessionId := Some (JStr sid),
                                  ws_listeners := [ProcessMessage] \<rparr>"

definition subscribeToStream :: "string \<Rightarrow> obj \<Rightarrow> client \<Rightarrow> client \<times> (error + nat)" where
  "subscribeToStream commandName additionalArguments st =
     (case streamSessionId st of
        None \<Rightarrow> (st, Inl (Error ''No stream session ID''))
      | Some sid \<Rightarrow>
          if \<not> truthy (Some sid) then (st, Inl (Error ''No stream session ID''))
          else (let (st1, q) = sendCommand
                      (spread [(''command'', JStr commandName), (''streamSessionId'', sid)]
                         additionalArguments) st
                in (st1, Inr q)))"

definition unsubscribeFromStream :: "string \<Rightarrow> obj \<Rightarrow> client \<Rightarrow> client \<times> nat" where
  "unsubscribeFromStream commandName additionalArguments st =
     sendCommand (spread [(''command'', JStr commandName)] additionalArguments) st"

text \<open>The options of \<open>subscribeTickPrices\<close>; a field left out is \<open>None\<close>.\<close>

record TickOptions =
  minArrivalTime :: "int option"
  maxLevel :: "int option"

definition tick_options :: "TickOptions option \<Rightarrow> obj" where
  "tick_options options =
     (case options of
        None \<Rightarrow> []
      | Some opts \<Rightarrow>
          (case minArrivalTime opts of None \<Rightarrow> [] | Some n \<Rightarrow> [(''minArrivalTime'', JNum n)])
          @ (case maxLevel opts of None \<Rightarrow> [] | Some n \<Rightarrow> [(''maxLevel'', JNum n)]))"

definition subscribeKeepAlive :: "client \<Rightarrow> client \<times> (error + nat)" where
  "subscribeKeepAlive st = subscribeToStream ''getKeepAlive'' [] st"

definition unsubscribeKeepAlive :: "client \<Rightarrow> client \<times> nat" where
  "unsubscribeKeepAlive st = unsubscribeFromStream ''stopKeepAlive'' [] st"

definition subscribeBalance :: "client \<Rightarrow> client \<times> (error + nat)" where
  "subscribeBalance st = subscribeToStream ''getBalance'' [] st"

definition unsubscribeBalance :: "client \<Rightarrow> client \<times> nat" where
  "unsubscribeBalance st = unsubscribeFromStream ''stopBalance'' [] st"

definition subscribeCandles :: "string \<Rightarrow> client \<Rightarrow> client \<times> (error + nat)" where
  "subscribeCandles symbol st = subscribeToStream ''getCandles'' [(''symbol'', JStr symbol)] st"

definition unsubscribeCandles :: "string \<Rightarrow> client \<Rightarrow> client \<times> nat" where
  "unsubscribeCandles symbol st =
     unsubscribeFromStream ''stopCandles'' [(''symbol'', JStr symbol)] st"

definition subscribeNews :: "client \<Rightarrow> client \<times> (error + nat)" where
  "subscribeNews st = subscribeToStream ''getNews'' [] st"

definition unsubscribeNews :: "client \<Rightarrow> client \<times> nat" where
  "unsubscribeNews st = unsubscribeFromStream ''stopNews'' [] st"

definition subscribeProfits :: "client \<Rightarrow> client \<times> (error + nat)" where
  "subscribeProfits st = subscribeToStream ''getProfits'' [] st"

definition unsubscribeProfits :: "client \<Rightarrow> client \<times> nat" where
  "unsubscribeProfits st = unsubscribeFromStream ''stopProfits'' [] st"

definition subscribeTickPrices ::
  "string \<Rightarrow> TickOptions option \<Rightarrow> client \<Rightarrow> client \<times> (error + nat)" where
  "subscribeTickPrices symbol options st =
     subscribeToStream ''getTickPrices''
       (spread [(''symbol'', JStr symbol)] (tick_options options)) st"

definition unsubscribeTickPrices :: "string \<Rightarrow> client \<Rightarrow> client \<times> nat" where
  "unsubscribeTickPrices symbol st =
     unsubscribeFromStream ''stopTickPrices'' [(''symbol'', JStr symbol)] st"

definition subscribeTrades :: "client \<Rightarrow> client \<times> (error + nat)" where
  "subscribeTrades st = subscribeToStream ''getTrades'' [] st"

definition unsubscribeTrades :: "client \<Rightarrow> client \<times> nat" where
  "unsubscribeTrades st = unsubscribeFromStream ''stopTrades'' [] st"

definition subscribeTradeStatus :: "client \<Rightarrow> client \<times> (error + nat)" where
  "subscribeTradeStatus st = subscribeToStream ''getTradeStatus'' [] st"

definition unsubscribeTradeStatus :: "client \<Rightarrow> client \<times> nat" where
  "unsubscribeTradeStatus st = unsubscribeFromStream ''stopTradeStatus'' [] st"

text \<open>The second \<open>open\<close> handler, installed by the streaming constructor: it calls
  \<open>subscribeKeepAlive()\<close> and discards the promise.\<close>

definition onOpenStreaming :: "client \<Rightarrow> client" where
  "onOpenStreaming st =
     (case subscribeKeepAlive st of
        (st1, Inl e) \<Rightarrow> st1\<lparr> log := log st1 @ [UnhandledRejection e] \<rparr>
      | (st1, Inr q) \<Rightarrow> st1\<lparr> awaiting := (awaiting st1)(q \<mapsto> Dropped) \<rparr>)"

section \<open>The event loop\<close>

text \<open>
  The client runs on a single thread: between two calls of its methods, the runtime delivers
  events, one at a time. The model leaves to the environment when a timer fires and when a
  queued frame is sent; each theorem says which events it ranges over. The socket's \<open>error\<close>
  event (logged and emitted again), \<open>waitForConnection\<close>, \<open>isHealthy\<close>, \<open>getAPIVersion\<close>,
  \<open>getServerTime\<close> and \<open>createStreamingClient\<close> are left out: no statement below depends
  on them.
\<close>

datatype event =
    WsOpen
  | WsMessage wsdata
  | SendDone nat send_result
  | Timeout nat
  | Tick
  | WsClosed

fun step :: "event \<Rightarrow> client \<Rightarrow> client" where
  "step WsOpen st = (let st1 = onOpen st in if streaming st1 then onOpenStreaming st1 else st1)"
| "step (WsMessage d) st = onMessage d st"
| "step (SendDone k r) st = sendDone k r st"
| "step (Timeout p) st = onTimeout p st"
| "step Tick st = onTick st"
| "step WsClosed st = st\<lparr> log := log st @ [Emit ''close'' None] \<rparr>"

fun run :: "event list \<Rightarrow> client \<Rightarrow> client" where
  "run [] st = st"
| "run (e # es) st = run es (step e st)"

section \<open>Auxiliary notions for the statements\<close>

text \<open>The tag an inbound frame bears, as \<open>onData\<close> reads it.\<close>

fun tag_of :: "wsdata \<Rightarrow> string option" where
  "tag_of Garbage = None"
| "tag_of (Json j) = (case field j ''customTag'' of Some (JStr t) \<Rightarrow> Some t | _ \<Rightarrow> None)"

fun listener_id :: "listener \<Rightarrow> nat option" where
  "listener_id ProcessMessage = None"
| "listener_id (OnData p t) = Some p"

fun listener_tag :: "listener \<Rightarrow> string option" where
  "listener_tag ProcessMessage = None"
| "listener_tag (OnData p t) = Some t"

text \<open>Whether a listener takes a parsed frame as the reply to its call.\<close>

fun matches :: "listener \<Rightarrow> json \<Rightarrow> bool" where
  "matches ProcessMessage j = False"
| "matches (OnData p t) j = (field j ''customTag'' = Some (JStr t))"

text \<open>The tags of the calls in flight: those whose \<open>onData\<close> is still registered.\<close>

definition outstanding_tags :: "client \<Rightarrow> string list" where
  "outstanding_tags st = List.map_filter listener_tag (ws_listeners st)"

text \<open>Each \<open>onData\<close> closure is registered once and belongs to a promise already created.\<close>

definition well_formed :: "client \<Rightarrow> bool" where
  "well_formed st \<longleftrightarrow>
     distinct (ws_listeners st)
     \<and> distinct (List.map_filter listener_id (ws_listeners st))
     \<and> list_all (\<lambda>p. p < next_id st) (List.map_filter listener_id (ws_listeners st))"

text \<open>Several correlated calls issued one after the other before any event is handled;
  each is given its random tag, its command and its timeout option.\<close>

fun issue_calls :: "(string \<times> obj \<times> nat option) list \<Rightarrow> client \<Rightarrow> client \<times> nat list" where
  "issue_calls [] st = (st, [])"
| "issue_calls ((requestId, data, tmo) # cs) st =
     (let (st1, p) = sendCommandAndAwaitResponse requestId data tmo st;
          (st2, ps) = issue_calls cs st1
      in (st2, p # ps))"

text \<open>A sequence of inbound frames, in arrival order.\<close>

fun deliver :: "wsdata list \<Rightarrow> client \<Rightarrow> client" where
  "deliver [] st = st"
| "deliver (d # ds) st = deliver ds (onMessage d st)"

text \<open>The frames handed to the sender between two states, and the stream-session
  identifier a frame carries (\<open>None\<close> when it has none).\<close>

definition new_frames :: "client \<Rightarrow> client \<Rightarrow> obj list" where
  "new_frames st st' = map fst (drop (length (queue st)) (queue st'))"

definition frame_id :: "obj \<Rightarrow> json option" where
  "frame_id f = map_of f ''streamSessionId''"

text \<open>The configuration of a client constructed without a \<open>config\<close> argument.\<close>

definition no_config :: ClientConfig where
  "no_config = \<lparr> pingInterval = None, commandThrottleInterval = None \<rparr>"

text \<open>A call that is still waiting for its reply: its promise is pending, its \<open>onData\<close> is
  registered, and every listener of that promise holds the call's tag.\<close>

definition awaits_reply :: "nat \<Rightarrow> string \<Rightarrow> client \<Rightarrow> bool" where
  "awaits_reply p t st \<longleftrightarrow>
     promises st p = Some Pending
     \<and> OnData p t \<in> set (ws_listeners st)
     \<and> (\<forall>l \<in> set (ws_listeners st). listener_id l = Some p \<longrightarrow> listener_tag l = Some t)"

text \<open>Sample replies, used where a statement is evaluated on concrete frames.\<close>

definition reply_a :: json where
  "reply_a = JObj [(''status'', JBool True), (''customTag'', JStr ''0.a'')]"

definition reply_b :: json where
  "reply_b = JObj [(''status'', JBool False), (''customTag'', JStr ''0.b'')]"

text \<open>Sample replies to \<open>login\<close>.\<close>

definition login_ok :: json where
  "login_ok = JObj [(''status'', JBool True), (''streamSessionId'', JStr ''8469308861804289383''),
                    (''customTag'', JStr ''0.a'')]"

definition login_failed :: json where
  "login_failed = JObj [(''status'', JBool False), (''errorCode'', JStr ''BE005''),
                        (''errorDescr'', JStr ''userPasswordCheck: Invalid login or password''),
                        (''customTag'', JStr ''0.a'')]"

text \<open>A command session with one call in flight whose frame has been sent, so that its
  timeout is armed.\<close>

definition pending_call :: client where
  "pending_call =
     sendDone 0 SendOk
       (fst (sendCommandAndAwaitResponse ''0.a'' [(''command'', JStr ''getServerTime'')] None
          (new_XTBClient Demo no_config)))"

text \<open>A streaming session with one correlated call in flight, and a reply to it that also
  carries a channel's \<open>command\<close>.\<close>

definition streaming_pending :: client where
  "streaming_pending =
     fst (sendCommandAndAwaitResponse ''0.a'' [(''command'', JStr ''getServerTime'')] None
            (new_StreamingXTBClient Demo ''sid'' no_config))"

definition reply_push :: json where
  "reply_push = JObj [(''command'', JStr ''balance''), (''data'', JNum 1),
                      (''customTag'', JStr ''0.a'')]"

text \<open>A streaming session that is open with its keepalive interval armed and two correlated
  calls in flight, both sent.\<close>

definition two_pending :: client where
  "two_pending =
     run [SendDone 0 SendOk, SendDone 0 SendOk]
       (fst (issue_calls
          [(''0.a'', [(''command'', JStr ''getServerTime'')], None),
           (''0.b'', [(''command'', JStr ''getAPIVersion'')], None)]
          (run [WsOpen, SendDone 0 SendOk, SendDone 0 SendOk]
             (new_StreamingXTBClient Demo ''sid'' no_config))))"

text \<open>A call whose send the socket rejects; a session whose first ping is rejected; a
  session where a periodic ping is rejected.\<close>

definition send_rejected :: client where
  "send_rejected =
     sendDone 0 (SendFailed (Error ''WebSocket is not open''))
       (fst (sendCommandAndAwaitResponse ''0.a'' [(''command'', JStr ''getServerTime'')] None
          (new_XTBClient Demo no_config)))"

definition first_ping_rejected :: client where
  "first_ping_rejected =
     run [WsOpen, SendDone 0 (SendFailed (Error ''WebSocket is not open''))]
       (new_XTBClient Demo no_config)"

definition later_ping_rejected :: client where
  "later_ping_rejected =
     run [WsOpen, SendDone 0 SendOk, Tick, SendDone 0 (SendFailed (Error ''WebSocket is not open''))]
       (new_XTBClient Demo no_config)"


text \<open>Whether the promise of a send is awaited by the executor of call \<open>p\<close>.\<close>

fun awaited_by :: "nat \<Rightarrow> awaiter option \<Rightarrow> bool" where
  "awaited_by p (Some (CallExec p' t ms)) = (p' = p)"
| "awaited_by p a = False"

text \<open>A call that waits with its timeout armed: it is pending, its listener is registered,
  its timer holds the time \<open>T\<close>, and no frame still queued belongs to it.\<close>

definition armed :: "nat \<Rightarrow> string \<Rightarrow> nat \<Rightarrow> client \<Rightarrow> bool" where
  "armed p r T s \<longleftrightarrow>
     well_formed s
     \<and> promises s p = Some Pending
     \<and> OnData p r \<in> set (ws_listeners s)
     \<and> timers s p = Some (r, T)
     \<and> list_all (\<lambda>x. snd x < next_id s \<and> snd x \<noteq> p \<and> \<not> awaited_by p (awaiting s (snd x)))
          (queue s)"





text \<open>The session \<open>two_pending\<close> with a third call whose frame is still queued.\<close>

definition armed_and_queued :: client where
  "armed_and_queued =
     fst (sendCommandAndAwaitResponse ''0.c'' [(''command'', JStr ''getServerTime'')] None
            two_pending)"

section \<open>Promises and listeners under inbound frames\<close>

lemma settle_apply:
  "settle p v m q = (if q = p \<and> m p = Some Pending then Some v else m q)"
  by (simp add: settle_def)

lemma set_removeListener_subset: "set (removeListener l ls) \<subseteq> set ls"
  unfolding removeListener_def using set_remove1_subset [of l "rev ls"] by simp

lemma in_removeListener: "x \<in> set ls \<Longrightarrow> x \<noteq> l \<Longrightarrow> x \<in> set (removeListener l ls)"
  by (simp add: removeListener_def)

lemma distinct_removeListener: "distinct ls \<Longrightarrow> distinct (removeListener l ls)"
  by (simp add: removeListener_def)

lemma set_removeListener_distinct:
  "distinct ls \<Longrightarrow> set (removeListener l ls) = set ls - {l}"
  by (simp add: removeListener_def)


lemma parse_Some: "parse d = Some j \<Longrightarrow> d = Json j \<and> j \<noteq> JNull"
  by (cases d rule: parse.cases) auto

lemma parse_Json: "j \<noteq> JNull \<Longrightarrow> parse (Json j) = Some j"
  by (cases j) simp_all

lemma tag_of_parse:
  assumes "tag_of d = Some t"
  shows "\<exists>j. d = Json j \<and> parse d = Some j \<and> field j ''customTag'' = Some (JStr t)"
proof (cases d)
  case Garbage
  with assms show ?thesis by simp
next
  case (Json j)
  with assms have f: "field j ''customTag'' = Some (JStr t)"
    by (simp split: option.splits json.splits)
  then have "j \<noteq> JNull" by auto
  then have "parse (Json j) = Some j" by (rule parse_Json)
  with Json f show ?thesis by simp
qed

lemma parse_tag:
  "parse d = Some j \<Longrightarrow> (tag_of d = Some t) = (field j ''customTag'' = Some (JStr t))"
  by (drule parse_Some) (simp split: option.splits json.splits)

lemma run_listener_promises:
  "promises (run_listener l j st) p =
     (if promises st p = Some Pending \<and> (\<exists>t. l = OnData p t \<and> field j ''customTag'' = Some (JStr t))
      then Some (Resolved j) else promises st p)"
proof (cases l)
  case ProcessMessage
  then show ?thesis by (simp add: processMessage_def)
next
  case (OnData p' t')
  then show ?thesis by (simp add: settle_apply)
qed

lemma emit_message_promises:
  assumes "parse d = Some j"
  shows "promises (emit_message ls d st) p =
     (if promises st p = Some Pending
         \<and> (\<exists>t. OnData p t \<in> set ls \<and> field j ''customTag'' = Some (JStr t))
      then Some (Resolved j) else promises st p)"
proof (induction ls arbitrary: st)
  case Nil
  then show ?case by simp
next
  case (Cons l ls)
  let ?s = "run_listener l j st"
  let ?hit = "\<exists>t. l = OnData p t \<and> field j ''customTag'' = Some (JStr t)"
  let ?later = "\<exists>t. OnData p t \<in> set ls \<and> field j ''customTag'' = Some (JStr t)"
  have step: "emit_message (l # ls) d st = emit_message ls d ?s"
    using assms by simp
  have ih: "promises (emit_message ls d ?s) p =
      (if promises ?s p = Some Pending \<and> ?later then Some (Resolved j) else promises ?s p)"
    by (rule Cons.IH)
  have any: "(\<exists>t. OnData p t \<in> set (l # ls) \<and> field j ''customTag'' = Some (JStr t))
               = (?hit \<or> ?later)"
    by auto
  show ?case
  proof (cases "promises st p = Some Pending")
    case False
    then have "promises ?s p = promises st p" by (simp add: run_listener_promises)
    with False show ?thesis unfolding step ih by simp
  next
    case True
    show ?thesis
    proof (cases ?hit)
      case hit: True
      with True have "promises ?s p = Some (Resolved j)"
        unfolding run_listener_promises by simp
      with True hit show ?thesis unfolding step ih any by simp
    next
      case miss: False
      with True have "promises ?s p = Some Pending"
        unfolding run_listener_promises by simp
      with True miss show ?thesis unfolding step ih any by simp
    qed
  qed
qed

lemma emit_message_unparsed:
  "parse d = None \<Longrightarrow>
   emit_message ls d st = (if ls = [] then st else st\<lparr> log := log st @ [Uncaught] \<rparr>)"
  by (cases ls) simp_all

lemma run_listener_listeners_subset:
  "set (ws_listeners (run_listener l j st)) \<subseteq> set (ws_listeners st)"
proof (cases l)
  case ProcessMessage
  then show ?thesis by (simp add: processMessage_def)
next
  case (OnData p t)
  then show ?thesis using set_removeListener_subset by simp
qed

lemma emit_message_listeners_subset:
  "set (ws_listeners (emit_message ls d st)) \<subseteq> set (ws_listeners st)"
proof (induction ls arbitrary: st)
  case Nil
  then show ?case by simp
next
  case (Cons l ls)
  show ?case
  proof (cases "parse d")
    case None
    then show ?thesis by simp
  next
    case (Some j)
    have "set (ws_listeners (emit_message ls d (run_listener l j st)))
            \<subseteq> set (ws_listeners (run_listener l j st))"
      by (rule Cons.IH)
    also have "\<dots> \<subseteq> set (ws_listeners st)" by (rule run_listener_listeners_subset)
    finally show ?thesis using Some by simp
  qed
qed

text \<open>A listener that does not match the frame stays registered.\<close>

lemma run_listener_keeps:
  assumes "x \<in> set (ws_listeners st)" "\<not> matches x j"
  shows "x \<in> set (ws_listeners (run_listener l j st))"
proof (cases l)
  case ProcessMessage
  with assms show ?thesis by (simp add: processMessage_def)
next
  case (OnData p t)
  show ?thesis
  proof (cases "field j ''customTag'' = Some (JStr t)")
    case True
    with assms OnData have "x \<noteq> l" by auto
    with assms True OnData show ?thesis by (simp add: in_removeListener)
  next
    case False
    with assms OnData show ?thesis by simp
  qed
qed

lemma emit_message_keeps:
  assumes "\<not> matches x j" "parse d = Some j"
  shows "x \<in> set (ws_listeners st) \<Longrightarrow> x \<in> set (ws_listeners (emit_message ls d st))"
proof (induction ls arbitrary: st)
  case Nil
  then show ?case by simp
next
  case (Cons l ls)
  from Cons.prems assms have "x \<in> set (ws_listeners (run_listener l j st))"
    by (simp add: run_listener_keeps)
  then have "x \<in> set (ws_listeners (emit_message ls d (run_listener l j st)))"
    by (rule Cons.IH)
  then show ?case using assms by simp
qed

lemma onMessage_unparsed:
  assumes "parse d = None"
  shows "promises (onMessage d st) = promises st"
    and "ws_listeners (onMessage d st) = ws_listeners st"
  using assms by (simp_all add: onMessage_def emit_message_unparsed)

lemma onMessage_promises:
  assumes "parse d = Some j"
  shows "promises (onMessage d st) p =
     (if promises st p = Some Pending
         \<and> (\<exists>t. OnData p t \<in> set (ws_listeners st) \<and> field j ''customTag'' = Some (JStr t))
      then Some (Resolved j) else promises st p)"
  unfolding onMessage_def by (rule emit_message_promises [OF assms])

lemma onMessage_settled:
  assumes "promises st p = Some v" "v \<noteq> Pending"
  shows "promises (onMessage d st) p = Some v"
proof (cases "parse d")
  case None
  then show ?thesis using assms by (simp add: onMessage_unparsed)
next
  case (Some j)
  then show ?thesis using assms by (simp add: onMessage_promises)
qed

lemma deliver_settled:
  "promises st p = Some v \<Longrightarrow> v \<noteq> Pending \<Longrightarrow> promises (deliver ds st) p = Some v"
proof (induction ds arbitrary: st)
  case Nil
  then show ?case by simp
next
  case (Cons d ds)
  from Cons.prems have "promises (onMessage d st) p = Some v" by (rule onMessage_settled)
  then show ?case using Cons.IH Cons.prems(2) by simp
qed

lemma onMessage_listeners_subset:
  "set (ws_listeners (onMessage d st)) \<subseteq> set (ws_listeners st)"
  unfolding onMessage_def by (rule emit_message_listeners_subset)

lemma onMessage_keeps:
  assumes "x \<in> set (ws_listeners st)" "parse d = Some j" "\<not> matches x j"
  shows "x \<in> set (ws_listeners (onMessage d st))"
  unfolding onMessage_def using assms by (simp add: emit_message_keeps)

lemma deliver_first_reply:
  assumes "promises st p = Some Pending"
    and "OnData p t \<in> set (ws_listeners st)"
    and "\<forall>t'. OnData p t' \<in> set (ws_listeners st) \<longrightarrow> t' = t"
  shows "promises (deliver ds st) p =
     (case find (\<lambda>d. tag_of d = Some t) ds of
        None \<Rightarrow> Some Pending
      | Some d \<Rightarrow> map_option Resolved (parse d))"
  using assms
proof (induction ds arbitrary: st)
  case Nil
  show ?case using Nil.prems(1) by simp
next
  case (Cons d ds)
  show ?case
  proof (cases "tag_of d = Some t")
    case True
    then obtain j where j: "parse d = Some j" "field j ''customTag'' = Some (JStr t)"
      using tag_of_parse by blast
    have "\<exists>t'. OnData p t' \<in> set (ws_listeners st)
             \<and> field j ''customTag'' = Some (JStr t')"
      using Cons.prems(2) j(2) by blast
    then have "promises (onMessage d st) p = Some (Resolved j)"
      using Cons.prems(1) j(1) by (simp add: onMessage_promises)
    then have "promises (deliver ds (onMessage d st)) p = Some (Resolved j)"
      by (rule deliver_settled) simp
    with True j show ?thesis by simp
  next
    case False
    have keep: "promises (onMessage d st) p = Some Pending
        \<and> OnData p t \<in> set (ws_listeners (onMessage d st))"
    proof (cases "parse d")
      case None
      then show ?thesis using Cons.prems(1,2) by (simp add: onMessage_unparsed)
    next
      case (Some j)
      with False have nomatch: "field j ''customTag'' \<noteq> Some (JStr t)"
        by (simp add: parse_tag)
      have "\<not> (\<exists>t'. OnData p t' \<in> set (ws_listeners st)
                 \<and> field j ''customTag'' = Some (JStr t'))"
        using Cons.prems(3) nomatch by blast
      then have "promises (onMessage d st) p = Some Pending"
        using Cons.prems(1) Some by (simp add: onMessage_promises)
      moreover have "OnData p t \<in> set (ws_listeners (onMessage d st))"
        using Cons.prems(2) Some nomatch by (intro onMessage_keeps) simp_all
      ultimately show ?thesis by simp
    qed
    moreover have "\<forall>t'. OnData p t' \<in> set (ws_listeners (onMessage d st)) \<longrightarrow> t' = t"
      using Cons.prems(3) onMessage_listeners_subset [of d st] by blast
    ultimately have "promises (deliver ds (onMessage d st)) p =
       (case find (\<lambda>d. tag_of d = Some t) ds of
          None \<Rightarrow> Some Pending
        | Some d \<Rightarrow> map_option Resolved (parse d))"
      using Cons.IH by blast
    with False show ?thesis by simp
  qed
qed

section \<open>Issuing calls\<close>

lemma awaits_replyD:
  assumes "awaits_reply p t st"
  shows "promises st p = Some Pending"
    and "OnData p t \<in> set (ws_listeners st)"
    and "\<forall>t'. OnData p t' \<in> set (ws_listeners st) \<longrightarrow> t' = t"
proof -
  show "promises st p = Some Pending" "OnData p t \<in> set (ws_listeners st)"
    using assms unfolding awaits_reply_def by blast+
  show "\<forall>t'. OnData p t' \<in> set (ws_listeners st) \<longrightarrow> t' = t"
  proof (intro allI impI)
    fix t' assume "OnData p t' \<in> set (ws_listeners st)"
    moreover have "listener_id (OnData p t') = Some p" by simp
    ultimately have "listener_tag (OnData p t') = Some t"
      using assms unfolding awaits_reply_def by blast
    then show "t' = t" by simp
  qed
qed

lemma in_listener_ids:
  "OnData p t \<in> set ls \<Longrightarrow> p \<in> set (List.map_filter listener_id ls)"
  by (force simp: map_filter_def)

lemma listener_ids_append:
  "List.map_filter listener_id (ls @ [OnData p t]) = List.map_filter listener_id ls @ [p]"
  by (simp add: map_filter_def)

lemma call_result:
  "sendCommandAndAwaitResponse r data tmo st =
     (st\<lparr> next_id := next_id st + 2,
          promises := (promises st)(next_id st \<mapsto> Pending, Suc (next_id st) \<mapsto> Pending),
          ws_listeners := ws_listeners st @ [OnData (next_id st) r],
          queue := queue st @ [(AList.update ''customTag'' (JStr r) data, Suc (next_id st))],
          awaiting := (awaiting st)(Suc (next_id st) \<mapsto>
             CallExec (next_id st) r (case tmo of None \<Rightarrow> 5000 | Some n \<Rightarrow> n)) \<rparr>,
      next_id st)"
  by (simp add: sendCommandAndAwaitResponse_def sendThrottled_def Let_def)

lemma well_formed_call:
  assumes "well_formed st" "sendCommandAndAwaitResponse r data tmo st = (st', p)"
  shows "well_formed st'"
proof -
  have fresh: "next_id st \<notin> set (List.map_filter listener_id (ws_listeners st))"
    using assms(1) unfolding well_formed_def list_all_iff by auto
  then have "OnData (next_id st) r \<notin> set (ws_listeners st)"
    using in_listener_ids by blast
  moreover have "list_all (\<lambda>p. p < next_id st + 2) (List.map_filter listener_id (ws_listeners st))"
    using assms(1) unfolding well_formed_def list_all_iff by auto
  ultimately show ?thesis
    using assms fresh unfolding call_result well_formed_def
    by (auto simp: listener_ids_append)
qed

lemma call_awaits:
  assumes "well_formed st" "sendCommandAndAwaitResponse r data tmo st = (st', p)"
  shows "awaits_reply p r st'"
proof -
  have fresh: "next_id st \<notin> set (List.map_filter listener_id (ws_listeners st))"
    using assms(1) unfolding well_formed_def list_all_iff by auto
  have old: "\<forall>l \<in> set (ws_listeners st). listener_id l \<noteq> Some (next_id st)"
  proof
    fix l assume l: "l \<in> set (ws_listeners st)"
    show "listener_id l \<noteq> Some (next_id st)"
    proof (cases l)
      case ProcessMessage
      then show ?thesis by simp
    next
      case (OnData p' t')
      with l fresh in_listener_ids show ?thesis by auto
    qed
  qed
  show ?thesis
    using assms(2) old unfolding call_result awaits_reply_def by auto
qed

lemma call_keeps:
  assumes "well_formed st" "sendCommandAndAwaitResponse r data tmo st = (st', p')"
    and "awaits_reply p t st"
  shows "awaits_reply p t st'"
proof -
  have "OnData p t \<in> set (ws_listeners st)" using assms(3) by (rule awaits_replyD)
  then have "p \<in> set (List.map_filter listener_id (ws_listeners st))" by (rule in_listener_ids)
  then have "p < next_id st" using assms(1) unfolding well_formed_def list_all_iff by auto
  then show ?thesis
    using assms(2,3) unfolding call_result awaits_reply_def by auto
qed

lemma issue_calls_keeps:
  "well_formed st \<Longrightarrow> issue_calls cs st = (st1, ps) \<Longrightarrow> awaits_reply p t st \<Longrightarrow>
     awaits_reply p t st1 \<and> well_formed st1"
proof (induction cs arbitrary: st ps)
  case Nil
  then show ?case by simp
next
  case (Cons c cs)
  obtain r data tmo where c: "c = (r, data, tmo)" by (cases c)
  obtain st' p' where call: "sendCommandAndAwaitResponse r data tmo st = (st', p')"
    by fastforce
  obtain ps' where rest: "issue_calls cs st' = (st1, ps')"
    using Cons.prems(2) c call by (auto split: prod.splits)
  have "well_formed st'" using Cons.prems(1) call by (rule well_formed_call)
  moreover have "awaits_reply p t st'" using Cons.prems(1) call Cons.prems(3) by (rule call_keeps)
  ultimately show ?case using Cons.IH rest by blast
qed

lemma issue_calls_awaits:
  "well_formed st \<Longrightarrow> issue_calls cs st = (st1, ps) \<Longrightarrow>
     length ps = length cs
     \<and> (\<forall>i < length cs. awaits_reply (ps ! i) (fst (cs ! i)) st1)"
proof (induction cs arbitrary: st ps)
  case Nil
  then show ?case by auto
next
  case (Cons c cs)
  obtain r data tmo where c: "c = (r, data, tmo)" by (cases c)
  obtain st' p' where call: "sendCommandAndAwaitResponse r data tmo st = (st', p')"
    by fastforce
  obtain ps' where rest: "issue_calls cs st' = (st1, ps')" and ps: "ps = p' # ps'"
    using Cons.prems(2) c call by (auto split: prod.splits)
  have well_formed': "well_formed st'" using Cons.prems(1) call by (rule well_formed_call)
  have first: "awaits_reply p' r st1"
    using issue_calls_keeps [OF well_formed' rest call_awaits [OF Cons.prems(1) call]] by simp
  have ih: "length ps' = length cs \<and> (\<forall>i < length cs. awaits_reply (ps' ! i) (fst (cs ! i)) st1)"
    using Cons.IH [OF well_formed' rest] .
  show ?case
  proof (intro conjI allI impI)
    show "length ps = length (c # cs)" using ih ps by simp
  next
    fix i assume "i < length (c # cs)"
    then show "awaits_reply (ps ! i) (fst ((c # cs) ! i)) st1"
      using first ih ps c by (cases i) auto
  qed
qed

lemma well_formed_new_XTBClient: "well_formed (new_XTBClient m cfg)"
  by (simp add: well_formed_def new_XTBClient_def new_BaseClient_def map_filter_def)

section \<open>Reachable clients are well formed\<close>

lemma listener_ids_remove1:
  "set (List.map_filter listener_id (remove1 x xs)) \<subseteq> set (List.map_filter listener_id xs)"
  by (induction xs) (auto simp: map_filter_simps split: option.splits)

lemma distinct_listener_ids_remove1:
  "distinct (List.map_filter listener_id xs) \<Longrightarrow>
     distinct (List.map_filter listener_id (remove1 x xs))"
proof (induction xs)
  case Nil
  then show ?case by simp
next
  case (Cons y ys)
  show ?case
  proof (cases "x = y")
    case True
    then show ?thesis using Cons.prems by (simp add: map_filter_simps split: option.splits)
  next
    case False
    then show ?thesis
      using Cons listener_ids_remove1 [of x ys]
      by (auto simp: map_filter_simps split: option.splits)
  qed
qed

lemma listener_ids_rev:
  "List.map_filter listener_id (rev xs) = rev (List.map_filter listener_id xs)"
  by (simp add: map_filter_def rev_map rev_filter)

lemma well_formed_removeListener:
  assumes "well_formed st"
  shows "well_formed (st\<lparr> ws_listeners := removeListener l (ws_listeners st) \<rparr>)"
proof -
  have d: "distinct (ws_listeners st)"
    and di: "distinct (List.map_filter listener_id (ws_listeners st))"
    and b: "\<forall>p \<in> set (List.map_filter listener_id (ws_listeners st)). p < next_id st"
    using assms unfolding well_formed_def list_all_iff by auto
  have sub: "set (List.map_filter listener_id (removeListener l (ws_listeners st)))
               \<subseteq> set (List.map_filter listener_id (ws_listeners st))"
    unfolding removeListener_def listener_ids_rev
    using listener_ids_remove1 [of l "rev (ws_listeners st)"]
    by (simp add: listener_ids_rev)
  have "distinct (List.map_filter listener_id (removeListener l (ws_listeners st)))"
    unfolding removeListener_def listener_ids_rev
    using distinct_listener_ids_remove1 [of "rev (ws_listeners st)" l] di
    by (simp add: listener_ids_rev)
  then show ?thesis
    using d b sub unfolding well_formed_def list_all_iff
    by (auto simp: distinct_removeListener)
qed

lemma well_formed_cong:
  assumes "well_formed st" "ws_listeners st' = ws_listeners st" "next_id st \<le> next_id st'"
  shows "well_formed st'"
  using assms unfolding well_formed_def list_all_iff by fastforce

lemma run_listener_shape:
  "ws_listeners (run_listener l j st) = ws_listeners st
   \<or> ws_listeners (run_listener l j st) = removeListener l (ws_listeners st)"
  by (cases l) (simp_all add: processMessage_def)

lemma run_listener_next_id: "next_id (run_listener l j st) = next_id st"
  by (cases l) (simp_all add: processMessage_def)

lemma well_formed_run_listener:
  assumes "well_formed st"
  shows "well_formed (run_listener l j st)"
proof -
  from run_listener_shape [of l j st] show ?thesis
  proof
    assume "ws_listeners (run_listener l j st) = ws_listeners st"
    then show ?thesis
      by (intro well_formed_cong [OF assms]) (simp_all add: run_listener_next_id)
  next
    assume r: "ws_listeners (run_listener l j st) = removeListener l (ws_listeners st)"
    have "well_formed (st\<lparr> ws_listeners := removeListener l (ws_listeners st) \<rparr>)"
      using assms by (rule well_formed_removeListener)
    then show ?thesis
      by (rule well_formed_cong) (simp_all add: r run_listener_next_id)
  qed
qed

lemma well_formed_emit_message:
  "well_formed st \<Longrightarrow> well_formed (emit_message ls d st)"
proof (induction ls arbitrary: st)
  case Nil
  then show ?case by simp
next
  case (Cons l ls)
  show ?case
  proof (cases "parse d")
    case None
    have "well_formed (st\<lparr> log := log st @ [Uncaught] \<rparr>)"
      by (rule well_formed_cong [OF Cons.prems]) simp_all
    with None show ?thesis by simp
  next
    case (Some j)
    have "well_formed (run_listener l j st)" using Cons.prems by (rule well_formed_run_listener)
    then have "well_formed (emit_message ls d (run_listener l j st))" by (rule Cons.IH)
    with Some show ?thesis by simp
  qed
qed

lemma resume_frame:
  "ws_listeners (resume a r st) = ws_listeners st" "next_id (resume a r st) = next_id st"
  by (cases "(a, r, st)" rule: resume.cases; simp)+

lemma sendDone_frame:
  "ws_listeners (sendDone k r st) = ws_listeners st" "next_id (sendDone k r st) = next_id st"
  by (simp_all add: sendDone_def Let_def resume_frame split: prod.splits send_result.splits)

lemma well_formed_sendDone:
  assumes "well_formed st"
  shows "well_formed (sendDone k r st)"
  by (rule well_formed_cong [OF assms]) (simp_all add: sendDone_frame)

lemma well_formed_onTimeout:
  assumes "well_formed st"
  shows "well_formed (onTimeout p st)"
proof (cases "timers st p")
  case None
  then show ?thesis using assms by (simp add: onTimeout_def)
next
  case (Some tm)
  obtain t ms where tm: "tm = (t, ms)" by (cases tm)
  have "well_formed (st\<lparr> ws_listeners := removeListener (OnData p t) (ws_listeners st) \<rparr>)"
    using assms by (rule well_formed_removeListener)
  then show ?thesis
    by (rule well_formed_cong) (simp_all add: onTimeout_def Some tm)
qed

lemma ping_frame:
  "ws_listeners (fst (ping st)) = ws_listeners st" "next_id st \<le> next_id (fst (ping st))"
  by (simp_all add: ping_def sendCommand_def sendThrottled_def Let_def)

lemma well_formed_onOpen:
  assumes "well_formed st"
  shows "well_formed (onOpen st)"
  by (rule well_formed_cong [OF assms])
     (simp_all add: onOpen_def ping_def sendCommand_def sendThrottled_def Let_def)

lemma well_formed_onTick:
  assumes "well_formed st"
  shows "well_formed (onTick st)"
  by (rule well_formed_cong [OF assms])
     (simp_all add: onTick_def ping_def sendCommand_def sendThrottled_def Let_def)

lemma well_formed_onOpenStreaming:
  assumes "well_formed st"
  shows "well_formed (onOpenStreaming st)"
  by (rule well_formed_cong [OF assms])
     (simp_all add: onOpenStreaming_def subscribeKeepAlive_def subscribeToStream_def
        sendCommand_def sendThrottled_def Let_def split: option.splits)

lemma well_formed_step: "well_formed st \<Longrightarrow> well_formed (step e st)"
proof (cases e)
  case WsOpen
  assume "well_formed st"
  then have "well_formed (onOpen st)" by (rule well_formed_onOpen)
  then show ?thesis using WsOpen by (simp add: Let_def well_formed_onOpenStreaming)
next
  case (WsMessage d)
  assume "well_formed st"
  then show ?thesis using WsMessage by (simp add: onMessage_def well_formed_emit_message)
next
  case (SendDone k r)
  assume "well_formed st"
  then show ?thesis using SendDone by (simp add: well_formed_sendDone)
next
  case (Timeout p)
  assume "well_formed st"
  then show ?thesis using Timeout by (simp add: well_formed_onTimeout)
next
  case Tick
  assume "well_formed st"
  then show ?thesis using Tick by (simp add: well_formed_onTick)
next
  case WsClosed
  assume "well_formed st"
  then have "well_formed (st\<lparr> log := log st @ [Emit ''close'' None] \<rparr>)"
    by (rule well_formed_cong) simp_all
  then show ?thesis using WsClosed by simp
qed

lemma well_formed_run: "well_formed st \<Longrightarrow> well_formed (run es st)"
  by (induction es arbitrary: st) (simp_all add: well_formed_step)

lemma well_formed_new_StreamingXTBClient: "well_formed (new_StreamingXTBClient m sid cfg)"
  by (simp add: well_formed_def new_StreamingXTBClient_def new_BaseClient_def map_filter_def)

lemma well_formed_close:
  assumes "well_formed st"
  shows "well_formed (close st)"
  by (rule well_formed_cong [OF assms]) (simp_all add: close_def Let_def)

lemma well_formed_sendCommand:
  assumes "well_formed st"
  shows "well_formed (fst (sendCommand f st))"
  by (rule well_formed_cong [OF assms]) (simp_all add: sendCommand_def sendThrottled_def Let_def)

section \<open>Correlation of concurrent calls\<close>

text \<open>
  Claim C1, as amended. Let several correlated calls be issued with pairwise distinct tags,
  and let the replies arrive in any order, one reply per call. Then each call's promise is
  resolved with the reply that bears the call's own tag, and no other frame of the sequence
  bears that tag. The tags are the strings drawn from the random source: that they are
  distinct is a hypothesis, not something the client checks.
\<close>

theorem concurrent_calls_resolve_by_tag:
  assumes "well_formed st"
    and "issue_calls cs st = (st1, ps)"
    and "distinct (map fst cs)"
    and "mset (map tag_of ds) = mset (map (Some \<circ> fst) cs)"
    and "i < length cs"
  shows "\<exists>j. Json j \<in> set ds
           \<and> field j ''customTag'' = Some (JStr (fst (cs ! i)))
           \<and> promises (deliver ds st1) (ps ! i) = Some (Resolved j)
           \<and> (\<forall>j'. Json j' \<in> set ds \<and> field j' ''customTag'' = Some (JStr (fst (cs ! i)))
                  \<longrightarrow> j' = j)"
proof -
  let ?t = "fst (cs ! i)"
  have aw: "awaits_reply (ps ! i) ?t st1"
    using issue_calls_awaits [OF assms(1,2)] assms(5) by blast
  have res: "promises (deliver ds st1) (ps ! i) =
     (case find (\<lambda>d. tag_of d = Some ?t) ds of
        None \<Rightarrow> Some Pending
      | Some d \<Rightarrow> map_option Resolved (parse d))"
    by (rule deliver_first_reply [OF awaits_replyD [OF aw]])
  have "Some ?t \<in> set (map (Some \<circ> fst) cs)"
    using assms(5) by (metis comp_apply length_map nth_map nth_mem)
  then have "Some ?t \<in> set (map tag_of ds)"
    using assms(4) mset_eq_setD by blast
  then have "\<exists>d \<in> set ds. tag_of d = Some ?t" by auto
  then obtain d where d: "find (\<lambda>d. tag_of d = Some ?t) ds = Some d"
    by (cases "find (\<lambda>d. tag_of d = Some ?t) ds") (auto simp: find_None_iff)
  then have dt: "tag_of d = Some ?t" and dmem: "d \<in> set ds"
    by (auto simp: find_Some_iff)
  then obtain j where j: "d = Json j" "parse d = Some j"
      "field j ''customTag'' = Some (JStr ?t)"
    using tag_of_parse by blast
  have "distinct (map (Some \<circ> fst) cs)"
    using assms(3) by (simp add: distinct_map comp_def inj_on_def)
  then have "distinct (map tag_of ds)"
    using assms(4) mset_eq_imp_distinct_iff by blast
  then have inj: "inj_on tag_of (set ds)" by (simp add: distinct_map)
  have uniq: "\<forall>j'. Json j' \<in> set ds \<and> field j' ''customTag'' = Some (JStr ?t) \<longrightarrow> j' = j"
  proof (intro allI impI)
    fix j' assume a: "Json j' \<in> set ds \<and> field j' ''customTag'' = Some (JStr ?t)"
    then have "tag_of (Json j') = tag_of d" using dt by simp
    moreover have "Json j' \<in> set ds" using a by simp
    ultimately have "Json j' = d" using inj dmem by (rule_tac inj_onD)
    with j(1) show "j' = j" by simp
  qed
  have "promises (deliver ds st1) (ps ! i) = Some (Resolved j)"
    using res d j(2) by simp
  with j dmem uniq show ?thesis by blast
qed

theorem concurrent_calls_resolve_by_tag_witness:
  "well_formed (new_XTBClient Demo no_config)
   \<and> distinct (map fst [(''0.a'', [(''command'', JStr ''getServerTime'')], None :: nat option),
                         (''0.b'', [(''command'', JStr ''getAPIVersion'')], None)])
   \<and> (\<exists>j. Json j \<in> set [Json reply_b, Json reply_a]
           \<and> field j ''customTag'' = Some (JStr ''0.a'')
           \<and> promises (deliver [Json reply_b, Json reply_a]
                  (fst (issue_calls [(''0.a'', [(''command'', JStr ''getServerTime'')], None),
                         (''0.b'', [(''command'', JStr ''getAPIVersion'')], None)]
                     (new_XTBClient Demo no_config))))
                (snd (issue_calls [(''0.a'', [(''command'', JStr ''getServerTime'')], None),
                         (''0.b'', [(''command'', JStr ''getAPIVersion'')], None)]
                     (new_XTBClient Demo no_config)) ! 0) = Some (Resolved j))"
proof -
  let ?cs = "[(''0.a'', [(''command'', JStr ''getServerTime'')], None :: nat option),
              (''0.b'', [(''command'', JStr ''getAPIVersion'')], None)]"
  let ?st = "new_XTBClient Demo no_config"
  have h1: "well_formed ?st" by (rule well_formed_new_XTBClient)
  have h2: "issue_calls ?cs ?st = (fst (issue_calls ?cs ?st), snd (issue_calls ?cs ?st))" by simp
  have h3: "distinct (map fst ?cs)" by simp
  have h4: "mset (map tag_of [Json reply_b, Json reply_a]) = mset (map (Some \<circ> fst) ?cs)"
    by (simp add: reply_a_def reply_b_def)
  have h5: "0 < length ?cs" by simp
  from concurrent_calls_resolve_by_tag [OF h1 h2 h3 h4 h5] h1 h3
  show ?thesis by auto
qed

text \<open>
  The claim as stated also promises that no two calls in flight share a tag. Two calls for
  which the random source yields the same string are both in flight under that tag, and the
  first reply bearing it resolves both.
\<close>

theorem tag_collision_counterexample:
  "\<not> distinct (outstanding_tags
        (fst (issue_calls [(''0.a'', [(''command'', JStr ''getServerTime'')], None),
                           (''0.a'', [(''command'', JStr ''getAPIVersion'')], None)]
               (new_XTBClient Demo no_config))))
   \<and> promises (onMessage (Json reply_a)
        (fst (issue_calls [(''0.a'', [(''command'', JStr ''getServerTime'')], None),
                           (''0.a'', [(''command'', JStr ''getAPIVersion'')], None)]
               (new_XTBClient Demo no_config)))) 0 = Some (Resolved reply_a)
   \<and> promises (onMessage (Json reply_a)
        (fst (issue_calls [(''0.a'', [(''command'', JStr ''getServerTime'')], None),
                           (''0.a'', [(''command'', JStr ''getAPIVersion'')], None)]
               (new_XTBClient Demo no_config)))) 2 = Some (Resolved reply_a)"
  by (simp add: outstanding_tags_def map_filter_def call_result new_XTBClient_def
        new_BaseClient_def onMessage_def reply_a_def settle_def removeListener_def)

section \<open>The login guard of the business commands\<close>

text \<open>
  Claim C9. On a command session whose \<open>isLoggedIn\<close> flag is false, each of
  \<open>getAllSymbols\<close>, \<open>getSymbol\<close>, \<open>startTradeTransaction\<close> and
  \<open>getTradeTransactionStatus\<close> fails with the error \<open>Not logged in\<close> and leaves the client
  as it was: no listener is registered and no frame is handed to the sender.
\<close>

theorem not_logged_in_rejects:
  "\<not> isLoggedIn st \<Longrightarrow>
     getAllSymbols r st = (st, Inl (Error ''Not logged in''))
   \<and> getSymbol r symbol st = (st, Inl (Error ''Not logged in''))
   \<and> startTradeTransaction r transaction st = (st, Inl (Error ''Not logged in''))
   \<and> getTradeTransactionStatus r order st = (st, Inl (Error ''Not logged in''))"
  by (simp add: getAllSymbols_def getSymbol_def startTradeTransaction_def
        getTradeTransactionStatus_def)

theorem not_logged_in_rejects_witness:
  "\<not> isLoggedIn (new_XTBClient Demo no_config)
   \<and> getAllSymbols ''0.5'' (new_XTBClient Demo no_config)
       = (new_XTBClient Demo no_config, Inl (Error ''Not logged in''))
   \<and> getSymbol ''0.5'' ''EURUSD'' (new_XTBClient Demo no_config)
       = (new_XTBClient Demo no_config, Inl (Error ''Not logged in''))
   \<and> startTradeTransaction ''0.5'' (JObj []) (new_XTBClient Demo no_config)
       = (new_XTBClient Demo no_config, Inl (Error ''Not logged in''))
   \<and> getTradeTransactionStatus ''0.5'' 7 (new_XTBClient Demo no_config)
       = (new_XTBClient Demo no_config, Inl (Error ''Not logged in''))"
  using not_logged_in_rejects
          [of "new_XTBClient Demo no_config" "''0.5''" "''EURUSD''" "JObj []" 7]
  by (simp add: new_XTBClient_def new_BaseClient_def)

section \<open>Login state\<close>

lemma run_listener_isLoggedIn: "isLoggedIn (run_listener l j st) = isLoggedIn st"
  by (cases l) (simp_all add: processMessage_def)

lemma emit_message_isLoggedIn: "isLoggedIn (emit_message ls d st) = isLoggedIn st"
  by (induction ls arbitrary: st) (simp_all add: run_listener_isLoggedIn split: option.splits)

lemma resume_isLoggedIn: "isLoggedIn (resume a r st) = isLoggedIn st"
  by (cases "(a, r, st)" rule: resume.cases) simp_all

lemma sendDone_isLoggedIn: "isLoggedIn (sendDone k r st) = isLoggedIn st"
  by (simp add: sendDone_def Let_def resume_isLoggedIn split: prod.splits send_result.splits)

lemma onOpenStreaming_isLoggedIn: "isLoggedIn (onOpenStreaming st) = isLoggedIn st"
  by (simp add: onOpenStreaming_def subscribeKeepAlive_def subscribeToStream_def sendCommand_def
        sendThrottled_def Let_def split: option.splits)

lemma step_isLoggedIn: "isLoggedIn (step e st) = isLoggedIn st"
proof (cases e)
  case WsOpen
  then show ?thesis
    by (simp add: onOpen_def Let_def onOpenStreaming_isLoggedIn ping_def sendCommand_def
          sendThrottled_def)
next
  case (WsMessage d)
  then show ?thesis by (simp add: onMessage_def emit_message_isLoggedIn)
next
  case (SendDone k r)
  then show ?thesis by (simp add: sendDone_isLoggedIn)
next
  case (Timeout p)
  then show ?thesis by (simp add: onTimeout_def split: option.splits)
next
  case Tick
  then show ?thesis
    by (simp add: onTick_def ping_def sendCommand_def sendThrottled_def Let_def)
next
  case WsClosed
  then show ?thesis by simp
qed

lemma run_isLoggedIn: "isLoggedIn (run es st) = isLoggedIn st"
  by (induction es arbitrary: st) (simp_all add: step_isLoggedIn)

text \<open>
  Claim C10. \<open>logout\<close> hands its command to the sender and clears \<open>isLoggedIn\<close> in the same
  turn; whatever events follow (a reply of either status, a timeout, or nothing), the flag
  stays false. The code of \<open>login\<close> after its \<open>await\<close> sets \<open>isLoggedIn\<close> and stores the
  reply's \<open>streamSessionId\<close> when the reply's \<open>status\<close> is true, and leaves the client as it
  was when the status is false or the awaited call was rejected.
\<close>

theorem logout_unconditional_login_conditional:
  "\<not> isLoggedIn (fst (logout r st))
   \<and> new_frames st (fst (logout r st)) = [[(''command'', JStr ''logout''), (''customTag'', JStr r)]]
   \<and> (\<forall>es. \<not> isLoggedIn (run es (fst (logout r st))))
   \<and> (truthy (field ok ''status'') \<longrightarrow>
        isLoggedIn (fst (login_resume (Inr ok) st'))
        \<and> streamSessionId (fst (login_resume (Inr ok) st')) = field ok ''streamSessionId'')
   \<and> (\<not> truthy (field failed ''status'') \<longrightarrow> fst (login_resume (Inr failed) st') = st')
   \<and> fst (login_resume (Inl e) st') = st'"
proof -
  have out: "\<not> isLoggedIn (fst (logout r st))"
    by (simp add: logout_def call_result)
  have frame: "new_frames st (fst (logout r st))
                 = [[(''command'', JStr ''logout''), (''customTag'', JStr r)]]"
    by (simp add: logout_def call_result new_frames_def)
  have later: "\<forall>es. \<not> isLoggedIn (run es (fst (logout r st)))"
    using out by (simp add: run_isLoggedIn)
  have ok: "truthy (field ok ''status'') \<longrightarrow>
        isLoggedIn (fst (login_resume (Inr ok) st'))
        \<and> streamSessionId (fst (login_resume (Inr ok) st')) = field ok ''streamSessionId''"
    by (simp add: login_resume_def)
  have failed: "\<not> truthy (field failed ''status'') \<longrightarrow>
        fst (login_resume (Inr failed) st') = st'"
    by (simp add: login_resume_def)
  have rejected: "fst (login_resume (Inl e) st') = st'"
    by (simp add: login_resume_def)
  from out frame later ok failed rejected show ?thesis by blast
qed

theorem logout_unconditional_login_conditional_witness:
  "truthy (field login_ok ''status'')
   \<and> \<not> truthy (field login_failed ''status'')
   \<and> isLoggedIn (fst (login_resume (Inr login_ok) (new_XTBClient Demo no_config)))
   \<and> streamSessionId (fst (login_resume (Inr login_ok) (new_XTBClient Demo no_config)))
        = Some (JStr ''8469308861804289383'')
   \<and> fst (login_resume (Inr login_failed) (new_XTBClient Demo no_config))
        = new_XTBClient Demo no_config
   \<and> (\<forall>es. \<not> isLoggedIn (run es
          (fst (logout ''0.b'' (fst (login_resume (Inr login_ok) (new_XTBClient Demo no_config)))))))"
  using logout_unconditional_login_conditional
          [of "''0.b''" "fst (login_resume (Inr login_ok) (new_XTBClient Demo no_config))"
              login_ok "new_XTBClient Demo no_config" login_failed]
  by (simp add: login_ok_def login_failed_def)

section \<open>Effects of a dispatched frame\<close>

lemma run_listener_log:
  "log (run_listener l j st) = log st @ (if l = ProcessMessage then [push_effect j] else [])"
  by (cases l) (simp_all add: processMessage_def)

lemma emit_message_log:
  assumes "parse d = Some j"
  shows "log (emit_message ls d st)
           = log st @ replicate (count_list ls ProcessMessage) (push_effect j)"
proof (induction ls arbitrary: st)
  case Nil
  then show ?case by simp
next
  case (Cons l ls)
  have "log (emit_message (l # ls) d st) = log (emit_message ls d (run_listener l j st))"
    using assms by simp
  also have "\<dots> = log (run_listener l j st)
                      @ replicate (count_list ls ProcessMessage) (push_effect j)"
    by (rule Cons.IH)
  finally show ?case by (simp add: run_listener_log)
qed



lemma run_listener_distinct:
  assumes "distinct (ws_listeners st)"
  shows "distinct (ws_listeners (run_listener l j st))"
    and "set (ws_listeners (run_listener l j st))
           = set (ws_listeners st) - (if matches l j then {l} else {})"
proof -
  show "distinct (ws_listeners (run_listener l j st))"
    using assms by (cases l) (simp_all add: processMessage_def distinct_removeListener)
  show "set (ws_listeners (run_listener l j st))
           = set (ws_listeners st) - (if matches l j then {l} else {})"
    using assms by (cases l) (simp_all add: processMessage_def set_removeListener_distinct)
qed

lemma emit_message_removes:
  assumes "parse d = Some j"
  shows "distinct (ws_listeners st) \<Longrightarrow>
     distinct (ws_listeners (emit_message ls d st))
     \<and> set (ws_listeners (emit_message ls d st))
          = set (ws_listeners st) - {l \<in> set ls. matches l j}"
proof (induction ls arbitrary: st)
  case Nil
  then show ?case by simp
next
  case (Cons l ls)
  let ?s = "run_listener l j st"
  have step: "emit_message (l # ls) d st = emit_message ls d ?s"
    using assms by simp
  have d1: "distinct (ws_listeners ?s)" using Cons.prems by (rule run_listener_distinct)
  have s1: "set (ws_listeners ?s) = set (ws_listeners st) - (if matches l j then {l} else {})"
    using Cons.prems by (rule run_listener_distinct)
  have ih: "distinct (ws_listeners (emit_message ls d ?s))
     \<and> set (ws_listeners (emit_message ls d ?s))
          = set (ws_listeners ?s) - {l \<in> set ls. matches l j}"
    using d1 by (rule Cons.IH)
  show ?case unfolding step using ih s1 by auto
qed

section \<open>Timeout against reply\<close>

lemma field_Some_parse: "field j k = Some v \<Longrightarrow> parse (Json j) = Some j"
  by (cases j) simp_all


lemma onTimeout_armed:
  "timers st p = Some (t, ms) \<Longrightarrow>
   onTimeout p st =
     st\<lparr> timers := (timers st)(p := None),
          ws_listeners := removeListener (OnData p t) (ws_listeners st),
          promises := settle p (Rejected (Error ''Timeout'')) (promises st) \<rparr>"
  by (simp add: onTimeout_def)


lemma pending_call_fields:
  "ws_listeners pending_call = [OnData 0 ''0.a'']"
  "promises pending_call = [0 \<mapsto> Pending, 1 \<mapsto> Done]"
  "timers pending_call = [0 \<mapsto> (''0.a'', 5000)]"
  "next_id pending_call = 2"
  "queue pending_call = []"
  "sent pending_call = [[(''command'', JStr ''getServerTime''), (''customTag'', JStr ''0.a'')]]"
  "log pending_call = []"
  by (simp_all add: pending_call_def call_result sendDone_def new_XTBClient_def
        new_BaseClient_def settle_def fun_eq_iff)

section \<open>A call from its send to its timeout or reply\<close>






lemma ping_fields:
  "ws_listeners (fst (ping s)) = ws_listeners s"
  "promises (fst (ping s)) = (promises s)(next_id s \<mapsto> Pending)"
  "timers (fst (ping s)) = timers s"
  "next_id (fst (ping s)) = Suc (next_id s)"
  "\<exists>f. queue (fst (ping s)) = queue s @ [(f, next_id s)]"
  "awaiting (fst (ping s)) = awaiting s"
  "snd (ping s) = next_id s"
  by (simp_all add: ping_def sendCommand_def sendThrottled_def Let_def)




lemma resume_fields:
  "queue (resume a res s) = queue s"
  "awaiting (resume a res s) = awaiting s"
  "promises (resume a res s) = promises s"
  by (cases "(a, res, s)" rule: resume.cases; simp)+





lemma run_listener_rest:
  "next_id (run_listener l j s) = next_id s"
  "queue (run_listener l j s) = queue s"
  "awaiting (run_listener l j s) = awaiting s"
  by (cases l; simp add: processMessage_def)+

lemma emit_message_rest:
  "next_id (emit_message ls d s) = next_id s
   \<and> queue (emit_message ls d s) = queue s
   \<and> awaiting (emit_message ls d s) = awaiting s"
  by (induction ls arbitrary: s) (simp_all add: run_listener_rest split: option.splits)








lemma queue_ids_cong:
  assumes "list_all (\<lambda>x. snd x < next_id s) (queue s)"
    and "next_id s \<le> next_id s'"
    and "\<And>x. x \<in> set (queue s') \<Longrightarrow> x \<in> set (queue s) \<or> snd x < next_id s'"
  shows "list_all (\<lambda>x. snd x < next_id s') (queue s')"
  unfolding list_all_iff
proof
  fix x assume "x \<in> set (queue s')"
  then have "x \<in> set (queue s) \<or> snd x < next_id s'" by (rule assms(3))
  then show "snd x < next_id s'"
    using assms(1,2) unfolding list_all_iff by fastforce
qed

lemma queue_ids_ping:
  assumes "list_all (\<lambda>x. snd x < next_id s) (queue s)"
  shows "list_all (\<lambda>x. snd x < next_id (fst (ping s))) (queue (fst (ping s)))"
proof (rule queue_ids_cong [OF assms])
  show "next_id s \<le> next_id (fst (ping s))" by (simp add: ping_fields)
  fix x assume x: "x \<in> set (queue (fst (ping s)))"
  obtain f where "queue (fst (ping s)) = queue s @ [(f, next_id s)]"
    using ping_fields(5) [of s] by auto
  with x show "x \<in> set (queue s) \<or> snd x < next_id (fst (ping s))"
    by (auto simp: ping_fields)
qed

lemma queue_ids_onOpenStreaming:
  assumes "list_all (\<lambda>x. snd x < next_id s) (queue s)"
  shows "list_all (\<lambda>x. snd x < next_id (onOpenStreaming s)) (queue (onOpenStreaming s))"
  by (rule queue_ids_cong [OF assms])
     (auto simp: onOpenStreaming_def subscribeKeepAlive_def subscribeToStream_def
        sendCommand_def sendThrottled_def Let_def split: option.splits if_splits)

lemma queue_ids_step:
  assumes "list_all (\<lambda>x. snd x < next_id s) (queue s)"
  shows "list_all (\<lambda>x. snd x < next_id (step e s)) (queue (step e s))"
proof (cases e)
  case WsOpen
  have o: "queue (onOpen s) = queue (fst (ping (s\<lparr> log := log s @ [Emit ''open'' None] \<rparr>)))"
      "next_id (onOpen s) = next_id (fst (ping (s\<lparr> log := log s @ [Emit ''open'' None] \<rparr>)))"
    by (simp_all add: onOpen_def split: prod.splits)
  have "list_all (\<lambda>x. snd x < next_id (s\<lparr> log := log s @ [Emit ''open'' None] \<rparr>))
          (queue (s\<lparr> log := log s @ [Emit ''open'' None] \<rparr>))"
    using assms by simp
  then have "list_all (\<lambda>x. snd x < next_id (onOpen s)) (queue (onOpen s))"
    unfolding o by (rule queue_ids_ping)
  then show ?thesis using WsOpen by (simp add: Let_def queue_ids_onOpenStreaming)
next
  case (WsMessage d)
  then show ?thesis using assms by (simp add: onMessage_def emit_message_rest)
next
  case (SendDone k res)
  have "list_all (\<lambda>x. snd x < next_id (sendDone k res s)) (queue (sendDone k res s))"
  proof (rule queue_ids_cong [OF assms])
    show "next_id s \<le> next_id (sendDone k res s)" by (simp add: sendDone_frame)
    fix x assume "x \<in> set (queue (sendDone k res s))"
    then have "x \<in> set (queue s)"
      by (cases res)
         (auto simp: sendDone_def Let_def resume_fields split: if_splits prod.splits
               dest: in_set_takeD in_set_dropD)
    then show "x \<in> set (queue s) \<or> snd x < next_id (sendDone k res s)" by simp
  qed
  then show ?thesis using SendDone by simp
next
  case (Timeout p)
  then show ?thesis using assms by (simp add: onTimeout_def split: option.splits)
next
  case Tick
  show ?thesis
  proof (cases "pingIntervalHandle s \<noteq> None \<and> \<not> intervalCleared s")
    case False
    then show ?thesis using Tick assms by (auto simp: onTick_def)
  next
    case True
    have o: "queue (onTick s) = queue (fst (ping s))" "next_id (onTick s) = next_id (fst (ping s))"
      using True by (simp_all add: onTick_def split: prod.splits)
    show ?thesis using Tick queue_ids_ping [OF assms] by (simp add: o)
  qed
next
  case WsClosed
  then show ?thesis using assms by simp
qed

lemma queue_ids_run:
  "list_all (\<lambda>x. snd x < next_id s) (queue s) \<Longrightarrow>
     list_all (\<lambda>x. snd x < next_id (run es s)) (queue (run es s))"
  by (induction es arbitrary: s) (simp_all add: queue_ids_step)

lemma queue_ids_call:
  assumes "list_all (\<lambda>x. snd x < next_id s) (queue s)"
  shows "list_all (\<lambda>x. snd x < next_id (fst (sendCommandAndAwaitResponse r data tmo s)))
           (queue (fst (sendCommandAndAwaitResponse r data tmo s)))"
  by (rule queue_ids_cong [OF assms]) (auto simp: call_result)

lemma queue_ids_new:
  "list_all (\<lambda>x. snd x < next_id (new_BaseClient m b cfg)) (queue (new_BaseClient m b cfg))"
  by (simp add: new_BaseClient_def)









section \<open>Demultiplexing of replies\<close>

lemma streaming_pending_fields:
  "ws_listeners streaming_pending = [ProcessMessage, OnData 0 ''0.a'']"
  "promises streaming_pending = [0 \<mapsto> Pending, 1 \<mapsto> Pending]"
  "log streaming_pending = []"
  "next_id streaming_pending = 2"
  by (simp_all add: streaming_pending_def call_result new_StreamingXTBClient_def
        new_BaseClient_def fun_eq_iff)

text \<open>
  Claim C6, as amended. An inbound frame whose tag matches a pending call resolves the call
  with the parsed frame, unchanged, and removes the call's listener. The frame is not
  withheld from the other listeners of the socket: each registered dispatcher
  (\<open>processMessage\<close>, one on a streaming session, none on a command session) also receives
  it, and emits its channel's event or reports it as unknown.
\<close>

theorem matched_reply_resolves_and_is_dispatched:
  assumes "well_formed st"
    and "promises st p = Some Pending"
    and "OnData p t \<in> set (ws_listeners st)"
    and "field j ''customTag'' = Some (JStr t)"
  shows "promises (onMessage (Json j) st) p = Some (Resolved j)
    \<and> OnData p t \<notin> set (ws_listeners (onMessage (Json j) st))
    \<and> log (onMessage (Json j) st)
         = log st @ replicate (count_list (ws_listeners st) ProcessMessage) (push_effect j)"
proof -
  have dist: "distinct (ws_listeners st)" using assms(1) by (simp add: well_formed_def)
  have pj: "parse (Json j) = Some j" using assms(4) by (rule field_Some_parse)
  have "\<exists>t'. OnData p t' \<in> set (ws_listeners st) \<and> field j ''customTag'' = Some (JStr t')"
    using assms(3,4) by blast
  then have b1: "promises (onMessage (Json j) st) p = Some (Resolved j)"
    using assms(2) pj by (simp add: onMessage_promises)
  have "set (ws_listeners (onMessage (Json j) st))
          = set (ws_listeners st) - {l \<in> set (ws_listeners st). matches l j}"
    unfolding onMessage_def using emit_message_removes [OF pj dist] by blast
  moreover have "matches (OnData p t) j" using assms(4) by simp
  ultimately have b2: "OnData p t \<notin> set (ws_listeners (onMessage (Json j) st))"
    using assms(3) by blast
  have b3: "log (onMessage (Json j) st)
         = log st @ replicate (count_list (ws_listeners st) ProcessMessage) (push_effect j)"
    unfolding onMessage_def by (rule emit_message_log [OF pj])
  from b1 b2 b3 show ?thesis by blast
qed

theorem matched_reply_resolves_and_is_dispatched_witness:
  "well_formed pending_call
   \<and> promises pending_call 0 = Some Pending
   \<and> OnData 0 ''0.a'' \<in> set (ws_listeners pending_call)
   \<and> field reply_a ''customTag'' = Some (JStr ''0.a'')
   \<and> promises (onMessage (Json reply_a) pending_call) 0 = Some (Resolved reply_a)
   \<and> log (onMessage (Json reply_a) pending_call) = []
   \<and> well_formed streaming_pending
   \<and> promises (onMessage (Json reply_push) streaming_pending) 0 = Some (Resolved reply_push)
   \<and> log (onMessage (Json reply_push) streaming_pending) = [Emit ''balance'' (Some (JNum 1))]"
proof -
  have h1: "well_formed pending_call" by (simp add: well_formed_def pending_call_fields map_filter_def)
  have h2: "promises pending_call 0 = Some Pending" by (simp add: pending_call_fields)
  have h3: "OnData 0 ''0.a'' \<in> set (ws_listeners pending_call)"
    by (simp add: pending_call_fields)
  have h4: "field reply_a ''customTag'' = Some (JStr ''0.a'')" by (simp add: reply_a_def)
  have g1: "well_formed streaming_pending"
    by (simp add: well_formed_def streaming_pending_fields map_filter_def)
  have g2: "promises streaming_pending 0 = Some Pending"
    by (simp add: streaming_pending_fields)
  have g3: "OnData 0 ''0.a'' \<in> set (ws_listeners streaming_pending)"
    by (simp add: streaming_pending_fields)
  have g4: "field reply_push ''customTag'' = Some (JStr ''0.a'')" by (simp add: reply_push_def)
  have e: "push_effect reply_push = Emit ''balance'' (Some (JNum 1))"
    by (simp add: push_effect_def reply_push_def channel_event_def)
  from matched_reply_resolves_and_is_dispatched [OF h1 h2 h3 h4]
       matched_reply_resolves_and_is_dispatched [OF g1 g2 g3 g4]
       h1 h2 h3 h4 g1 e
  show ?thesis by (simp add: pending_call_fields streaming_pending_fields)
qed

text \<open>
  Counterexample to claim C6 as stated: on a streaming session, the reply that resolves the
  pending call is also reported as an unknown message, and a reply that carries the command
  \<open>balance\<close> also fires the \<open>balance\<close> event.
\<close>

theorem reply_not_consumed_counterexample:
  "promises streaming_pending 0 = Some Pending
   \<and> OnData 0 ''0.a'' \<in> set (ws_listeners streaming_pending)
   \<and> field reply_a ''customTag'' = Some (JStr ''0.a'')
   \<and> promises (onMessage (Json reply_a) streaming_pending) 0 = Some (Resolved reply_a)
   \<and> log (onMessage (Json reply_a) streaming_pending) = [ConsoleWarn reply_a]
   \<and> field reply_push ''customTag'' = Some (JStr ''0.a'')
   \<and> promises (onMessage (Json reply_push) streaming_pending) 0 = Some (Resolved reply_push)
   \<and> log (onMessage (Json reply_push) streaming_pending) = [Emit ''balance'' (Some (JNum 1))]"
  by (simp add: streaming_pending_fields onMessage_def reply_a_def reply_push_def
        processMessage_def push_effect_def channel_event_def settle_def)

section \<open>Closing a session\<close>

lemma run_listener_cong:
  assumes "promises st = promises st'" "ws_listeners st = ws_listeners st'"
  shows "promises (run_listener l j st) = promises (run_listener l j st')"
    and "ws_listeners (run_listener l j st) = ws_listeners (run_listener l j st')"
  using assms by (cases l; simp add: processMessage_def)+

lemma emit_message_cong:
  "promises st = promises st' \<Longrightarrow> ws_listeners st = ws_listeners st' \<Longrightarrow>
     promises (emit_message ls d st) = promises (emit_message ls d st')
     \<and> ws_listeners (emit_message ls d st) = ws_listeners (emit_message ls d st')"
proof (induction ls arbitrary: st st')
  case Nil
  then show ?case by simp
next
  case (Cons l ls)
  show ?case
  proof (cases "parse d")
    case None
    then show ?thesis using Cons.prems by simp
  next
    case (Some j)
    have "promises (emit_message ls d (run_listener l j st))
            = promises (emit_message ls d (run_listener l j st'))
        \<and> ws_listeners (emit_message ls d (run_listener l j st))
            = ws_listeners (emit_message ls d (run_listener l j st'))"
      by (rule Cons.IH) (rule run_listener_cong [OF Cons.prems])+
    then show ?thesis using Some by simp
  qed
qed

lemma close_fields:
  "promises (close st) = promises st"
  "ws_listeners (close st) = ws_listeners st"
  "timers (close st) = timers st"
  "queue (close st) = queue st"
  "log (close st) = log st @ [WsCloseCall, Emit ''close'' None]"
  by (simp_all add: close_def Let_def)

lemma two_pending_fields:
  "ws_listeners two_pending = [ProcessMessage, OnData 2 ''0.a'', OnData 4 ''0.b'']"
  "promises two_pending = [0 \<mapsto> Done, 1 \<mapsto> Done, 2 \<mapsto> Pending, 3 \<mapsto> Done, 4 \<mapsto> Pending, 5 \<mapsto> Done]"
  "timers two_pending = [2 \<mapsto> (''0.a'', 5000), 4 \<mapsto> (''0.b'', 5000)]"
  "pingIntervalHandle two_pending = Some 10000"
  "intervalCleared two_pending = False"
  "queue two_pending = []"
  by (simp_all add: two_pending_def call_result sendDone_def new_StreamingXTBClient_def
        new_BaseClient_def settle_def fun_eq_iff onOpen_def ping_def sendCommand_def
        sendThrottled_def onOpenStreaming_def subscribeKeepAlive_def subscribeToStream_def
        spread_def pingPeriod_def no_config_def Let_def nth_append)

lemma onTimeout_promises_other:
  "p' \<noteq> p \<Longrightarrow> promises (onTimeout p' st) p = promises st p"
  by (simp add: onTimeout_def settle_apply split: option.splits)

lemma onTimeout_unarmed: "timers st p = None \<Longrightarrow> onTimeout p st = st"
  by (simp add: onTimeout_def)

text \<open>
  Claim C4, as amended. \<open>BaseClient.close\<close> cancels the keepalive interval when one is armed
  (a tick after it does nothing), closes the socket and emits \<open>close\<close>. It settles no promise
  and leaves every listener, armed timeout and queued frame as it was, so that frames and
  timers act on the calls as they would have without it: a pending call is still resolved
  by a matching frame that arrives afterwards, a pending call whose timeout is armed still
  fails with \<open>Error('Timeout')\<close> when its timer fires, and a pending call that has no timeout
  yet (its frame is still queued) stays pending, no timer firing for it.
\<close>

theorem close_leaves_calls_pending:
  "promises (close st) = promises st
    \<and> ws_listeners (close st) = ws_listeners st
    \<and> timers (close st) = timers st
    \<and> queue (close st) = queue st
    \<and> log (close st) = log st @ [WsCloseCall, Emit ''close'' None]
    \<and> onTick (close st) = close st
    \<and> promises (onMessage d (close st)) = promises (onMessage d st)
    \<and> promises (onTimeout p' (close st)) = promises (onTimeout p' st)
    \<and> (promises st p = Some Pending \<and> timers st p = Some (t, ms)
          \<longrightarrow> promises (onTimeout p (close st)) p = Some (Rejected (Error ''Timeout'')))
    \<and> (promises st p2 = Some Pending \<and> timers st p2 = None
          \<longrightarrow> promises (close st) p2 = Some Pending
              \<and> promises (onTimeout p' (close st)) p2 = Some Pending)"
proof -
  have tick: "onTick (close st) = close st"
    by (simp add: onTick_def close_def Let_def)
  have msg: "promises (onMessage d (close st)) = promises (onMessage d st)"
    unfolding onMessage_def close_fields
    using emit_message_cong [of "close st" st "ws_listeners st" d]
    by (simp add: close_fields)
  have tmo: "promises (onTimeout p' (close st)) = promises (onTimeout p' st)"
    by (simp add: onTimeout_def close_fields split: option.splits)
  have armed: "promises st p = Some Pending \<and> timers st p = Some (t, ms)
          \<longrightarrow> promises (onTimeout p (close st)) p = Some (Rejected (Error ''Timeout''))"
  proof
    assume a: "promises st p = Some Pending \<and> timers st p = Some (t, ms)"
    then have "timers (close st) p = Some (t, ms)" by (simp add: close_fields)
    then show "promises (onTimeout p (close st)) p = Some (Rejected (Error ''Timeout''))"
      using a by (simp add: onTimeout_armed close_fields settle_apply)
  qed
  have queued: "promises st p2 = Some Pending \<and> timers st p2 = None
          \<longrightarrow> promises (close st) p2 = Some Pending
              \<and> promises (onTimeout p' (close st)) p2 = Some Pending"
  proof
    assume a: "promises st p2 = Some Pending \<and> timers st p2 = None"
    have "promises (onTimeout p' st) p2 = Some Pending"
    proof (cases "p' = p2")
      case True
      then show ?thesis using a by (simp add: onTimeout_unarmed)
    next
      case False
      then show ?thesis using a by (simp add: onTimeout_promises_other)
    qed
    then show "promises (close st) p2 = Some Pending
              \<and> promises (onTimeout p' (close st)) p2 = Some Pending"
      using a tmo by (simp add: close_fields)
  qed
  from tick msg tmo armed queued show ?thesis by (simp add: close_fields)
qed

lemma two_pending_next_id: "next_id two_pending = 6"
  by (simp add: two_pending_def call_result sendDone_def new_StreamingXTBClient_def
        new_BaseClient_def settle_def onOpen_def ping_def sendCommand_def
        sendThrottled_def onOpenStreaming_def subscribeKeepAlive_def subscribeToStream_def
        spread_def pingPeriod_def no_config_def Let_def nth_append)

lemma armed_and_queued_fields:
  "promises armed_and_queued 2 = Some Pending"
  "timers armed_and_queued 2 = Some (''0.a'', 5000)"
  "promises armed_and_queued 6 = Some Pending"
  "timers armed_and_queued 6 = None"
  by (simp_all add: armed_and_queued_def call_result two_pending_fields two_pending_next_id)

theorem close_leaves_calls_pending_witness:
  "promises armed_and_queued 2 = Some Pending
   \<and> timers armed_and_queued 2 = Some (''0.a'', 5000)
   \<and> promises armed_and_queued 6 = Some Pending
   \<and> timers armed_and_queued 6 = None
   \<and> promises (close armed_and_queued) 2 = Some Pending
   \<and> onTick (close armed_and_queued) = close armed_and_queued
   \<and> promises (onTimeout 2 (close armed_and_queued)) 2 = Some (Rejected (Error ''Timeout''))
   \<and> promises (close armed_and_queued) 6 = Some Pending
   \<and> promises (onTimeout 6 (close armed_and_queued)) 6 = Some Pending"
proof -
  note f = armed_and_queued_fields
  note r = close_leaves_calls_pending
             [of armed_and_queued "Json reply_a" 6 2 "''0.a''" 5000 6]
  note r5 = r [THEN conjunct2, THEN conjunct2, THEN conjunct2, THEN conjunct2, THEN conjunct2]
  note r8 = r5 [THEN conjunct2, THEN conjunct2, THEN conjunct2]
  have same: "promises (close armed_and_queued) = promises armed_and_queued"
    by (rule r [THEN conjunct1])
  have a: "promises (close armed_and_queued) 2 = Some Pending"
    unfolding same by (rule f)
  have tick: "onTick (close armed_and_queued) = close armed_and_queued"
    by (rule r5 [THEN conjunct1])
  have armed: "promises (onTimeout 2 (close armed_and_queued)) 2
                 = Some (Rejected (Error ''Timeout''))"
    by (rule r8 [THEN conjunct1, THEN mp]) (simp add: f)
  have queued: "promises (close armed_and_queued) 6 = Some Pending
      \<and> promises (onTimeout 6 (close armed_and_queued)) 6 = Some Pending"
    by (rule r8 [THEN conjunct2, THEN mp]) (simp add: f)
  show ?thesis
    using f a tick armed queued by simp
qed

text \<open>
  Counterexample to claim C4 as stated: after \<open>close\<close> on a session with two pending calls,
  both are still pending, and a frame arriving afterwards is still dispatched.
\<close>

theorem close_does_not_fail_pending_counterexample:
  "pingIntervalHandle two_pending = Some 10000
   \<and> promises two_pending 2 = Some Pending
   \<and> promises two_pending 4 = Some Pending
   \<and> promises (close two_pending) 2 = Some Pending
   \<and> promises (close two_pending) 4 = Some Pending
   \<and> promises (onMessage (Json reply_a) (close two_pending)) 2 = Some (Resolved reply_a)
   \<and> log (onMessage (Json reply_a) (close two_pending))
        = log (close two_pending) @ [ConsoleWarn reply_a]"
  by (simp add: two_pending_fields close_fields onMessage_def reply_a_def settle_def
        processMessage_def push_effect_def)

section \<open>Frames of the streaming session\<close>

lemma map_of_spread_other:
  "k \<notin> fst ` set src \<Longrightarrow> map_of (spread target src) k = map_of target k"
  unfolding spread_def
proof (induction src arbitrary: target)
  case Nil
  then show ?case by simp
next
  case (Cons kv src)
  obtain k' v' where kv: "kv = (k', v')" by (cases kv)
  with Cons.prems have "k \<noteq> k'" "k \<notin> fst ` set src" by auto
  then show ?case using Cons.IH [of "AList.update k' v' target"] kv
    by (simp add: update_conv')
qed

lemma keys_spread: "fst ` set (spread target src) = fst ` set target \<union> fst ` set src"
  unfolding spread_def
proof (induction src arbitrary: target)
  case Nil
  then show ?case by simp
next
  case (Cons kv src)
  obtain k' v' where kv: "kv = (k', v')" by (cases kv)
  show ?case using Cons.IH [of "AList.update k' v' target"] kv
    by (auto simp: dom_update)
qed

lemma tick_options_keys:
  "fst ` set (tick_options options) \<subseteq> {''minArrivalTime'', ''maxLevel''}"
  by (auto simp: tick_options_def split: option.splits)

lemma sendCommand_frames: "new_frames st (fst (sendCommand f st)) = [f]"
  by (simp add: new_frames_def sendCommand_def sendThrottled_def Let_def)

lemma subscribeToStream_frames:
  assumes "streamSessionId st = Some (JStr sid)" "sid \<noteq> []"
    and "''streamSessionId'' \<notin> fst ` set extra"
  shows "map frame_id (new_frames st (fst (subscribeToStream name extra st))) = [Some (JStr sid)]"
proof -
  have "new_frames st (fst (subscribeToStream name extra st))
          = [spread [(''command'', JStr name), (''streamSessionId'', JStr sid)] extra]"
    using assms(1,2)
    by (simp add: subscribeToStream_def sendCommand_frames split: prod.splits)
       (metis fst_conv sendCommand_frames)
  then show ?thesis using assms(3) by (simp add: frame_id_def map_of_spread_other)
qed

lemma unsubscribeFromStream_frames:
  assumes "''streamSessionId'' \<notin> fst ` set extra"
  shows "map frame_id (new_frames st (fst (unsubscribeFromStream name extra st))) = [None]"
  using assms
  by (simp add: unsubscribeFromStream_def sendCommand_frames frame_id_def map_of_spread_other)

lemma ping_frames:
  assumes "streamSessionId st = Some (JStr sid)" "sid \<noteq> []"
  shows "map frame_id (new_frames st (fst (ping st))) = [Some (JStr sid)]"
  using assms
  by (simp add: ping_def new_frames_def sendCommand_def sendThrottled_def Let_def
        frame_id_def spread_def)

text \<open>
  Claim C5, as amended. On a streaming session bound to a non-empty stream-session
  identifier, every subscribe frame (of \<open>subscribeToStream\<close> with additional arguments that
  have no key \<open>streamSessionId\<close>, hence of each public subscribe method) and every ping
  frame carries that identifier. The unsubscribe frames carry the command name and the
  additional arguments only, without the identifier.
\<close>

theorem stream_id_on_subscribe_and_ping_only:
  assumes "streamSessionId st = Some (JStr sid)"
    and "sid \<noteq> []"
    and "''streamSessionId'' \<notin> fst ` set extra"
  shows "map frame_id (new_frames st (fst (subscribeToStream name extra st))) = [Some (JStr sid)]
    \<and> map frame_id (new_frames st (fst (subscribeKeepAlive st))) = [Some (JStr sid)]
    \<and> map frame_id (new_frames st (fst (subscribeBalance st))) = [Some (JStr sid)]
    \<and> map frame_id (new_frames st (fst (subscribeCandles symbol st))) = [Some (JStr sid)]
    \<and> map frame_id (new_frames st (fst (subscribeNews st))) = [Some (JStr sid)]
    \<and> map frame_id (new_frames st (fst (subscribeProfits st))) = [Some (JStr sid)]
    \<and> map frame_id (new_frames st (fst (subscribeTickPrices symbol options st)))
          = [Some (JStr sid)]
    \<and> map frame_id (new_frames st (fst (subscribeTrades st))) = [Some (JStr sid)]
    \<and> map frame_id (new_frames st (fst (subscribeTradeStatus st))) = [Some (JStr sid)]
    \<and> map frame_id (new_frames st (fst (ping st))) = [Some (JStr sid)]
    \<and> map frame_id (new_frames st (fst (unsubscribeFromStream name extra st))) = [None]
    \<and> map frame_id (new_frames st (fst (unsubscribeKeepAlive st))) = [None]
    \<and> map frame_id (new_frames st (fst (unsubscribeBalance st))) = [None]
    \<and> map frame_id (new_frames st (fst (unsubscribeCandles symbol st))) = [None]
    \<and> map frame_id (new_frames st (fst (unsubscribeNews st))) = [None]
    \<and> map frame_id (new_frames st (fst (unsubscribeProfits st))) = [None]
    \<and> map frame_id (new_frames st (fst (unsubscribeTickPrices symbol st))) = [None]
    \<and> map frame_id (new_frames st (fst (unsubscribeTrades st))) = [None]
    \<and> map frame_id (new_frames st (fst (unsubscribeTradeStatus st))) = [None]"
proof -
  note sub = subscribeToStream_frames [OF assms(1,2)]
  have tick: "''streamSessionId'' \<notin> fst ` set (spread [(''symbol'', JStr symbol)] (tick_options options))"
    using tick_options_keys [of options] by (auto simp: keys_spread)
  have s1: "map frame_id (new_frames st (fst (subscribeToStream name extra st))) = [Some (JStr sid)]"
    by (rule sub [OF assms(3)])
  have s2: "map frame_id (new_frames st (fst (subscribeKeepAlive st))) = [Some (JStr sid)]"
    unfolding subscribeKeepAlive_def by (rule sub) simp
  have s3: "map frame_id (new_frames st (fst (subscribeBalance st))) = [Some (JStr sid)]"
    unfolding subscribeBalance_def by (rule sub) simp
  have s4: "map frame_id (new_frames st (fst (subscribeCandles symbol st))) = [Some (JStr sid)]"
    unfolding subscribeCandles_def by (rule sub) simp
  have s5: "map frame_id (new_frames st (fst (subscribeNews st))) = [Some (JStr sid)]"
    unfolding subscribeNews_def by (rule sub) simp
  have s6: "map frame_id (new_frames st (fst (subscribeProfits st))) = [Some (JStr sid)]"
    unfolding subscribeProfits_def by (rule sub) simp
  have s7: "map frame_id (new_frames st (fst (subscribeTickPrices symbol options st)))
          = [Some (JStr sid)]"
    unfolding subscribeTickPrices_def by (rule sub) (rule tick)
  have s8: "map frame_id (new_frames st (fst (subscribeTrades st))) = [Some (JStr sid)]"
    unfolding subscribeTrades_def by (rule sub) simp
  have s9: "map frame_id (new_frames st (fst (subscribeTradeStatus st))) = [Some (JStr sid)]"
    unfolding subscribeTradeStatus_def by (rule sub) simp
  have p: "map frame_id (new_frames st (fst (ping st))) = [Some (JStr sid)]"
    by (rule ping_frames [OF assms(1,2)])
  have u1: "map frame_id (new_frames st (fst (unsubscribeFromStream name extra st))) = [None]"
    by (rule unsubscribeFromStream_frames [OF assms(3)])
  have u2: "map frame_id (new_frames st (fst (unsubscribeKeepAlive st))) = [None]"
    unfolding unsubscribeKeepAlive_def by (rule unsubscribeFromStream_frames) simp
  have u3: "map frame_id (new_frames st (fst (unsubscribeBalance st))) = [None]"
    unfolding unsubscribeBalance_def by (rule unsubscribeFromStream_frames) simp
  have u4: "map frame_id (new_frames st (fst (unsubscribeCandles symbol st))) = [None]"
    unfolding unsubscribeCandles_def by (rule unsubscribeFromStream_frames) simp
  have u5: "map frame_id (new_frames st (fst (unsubscribeNews st))) = [None]"
    unfolding unsubscribeNews_def by (rule unsubscribeFromStream_frames) simp
  have u6: "map frame_id (new_frames st (fst (unsubscribeProfits st))) = [None]"
    unfolding unsubscribeProfits_def by (rule unsubscribeFromStream_frames) simp
  have u7: "map frame_id (new_frames st (fst (unsubscribeTickPrices symbol st))) = [None]"
    unfolding unsubscribeTickPrices_def by (rule unsubscribeFromStream_frames) simp
  have u8: "map frame_id (new_frames st (fst (unsubscribeTrades st))) = [None]"
    unfolding unsubscribeTrades_def by (rule unsubscribeFromStream_frames) simp
  have u9: "map frame_id (new_frames st (fst (unsubscribeTradeStatus st))) = [None]"
    unfolding unsubscribeTradeStatus_def by (rule unsubscribeFromStream_frames) simp
  from s1 s2 s3 s4 s5 s6 s7 s8 s9 p u1 u2 u3 u4 u5 u6 u7 u8 u9 show ?thesis
    by (intro conjI)
qed

theorem stream_id_on_subscribe_and_ping_only_witness:
  "streamSessionId (new_StreamingXTBClient Demo ''sid'' no_config) = Some (JStr ''sid'')
   \<and> ''sid'' \<noteq> []
   \<and> ''streamSessionId'' \<notin> fst ` set [(''symbol'', JStr ''EURUSD'')]
   \<and> map frame_id (new_frames (new_StreamingXTBClient Demo ''sid'' no_config)
        (fst (subscribeToStream ''getCandles'' [(''symbol'', JStr ''EURUSD'')]
                (new_StreamingXTBClient Demo ''sid'' no_config)))) = [Some (JStr ''sid'')]
   \<and> map frame_id (new_frames (new_StreamingXTBClient Demo ''sid'' no_config)
        (fst (ping (new_StreamingXTBClient Demo ''sid'' no_config)))) = [Some (JStr ''sid'')]
   \<and> map frame_id (new_frames (new_StreamingXTBClient Demo ''sid'' no_config)
        (fst (unsubscribeCandles ''EURUSD''
                (new_StreamingXTBClient Demo ''sid'' no_config)))) = [None]"
  using stream_id_on_subscribe_and_ping_only
          [of "new_StreamingXTBClient Demo ''sid'' no_config" "''sid''"
              "[(''symbol'', JStr ''EURUSD'')]" "''getCandles''" "''EURUSD''"]
  by (simp add: new_StreamingXTBClient_def new_BaseClient_def)

text \<open>
  Counterexample to claim C5 as stated: the frames of \<open>unsubscribeBalance\<close> and
  \<open>unsubscribeTickPrices\<close> on a bound streaming session have no \<open>streamSessionId\<close>.
\<close>

theorem unsubscribe_without_stream_id_counterexample:
  "streamSessionId (new_StreamingXTBClient Demo ''sid'' no_config) = Some (JStr ''sid'')
   \<and> new_frames (new_StreamingXTBClient Demo ''sid'' no_config)
        (fst (unsubscribeBalance (new_StreamingXTBClient Demo ''sid'' no_config)))
        = [[(''command'', JStr ''stopBalance'')]]
   \<and> new_frames (new_StreamingXTBClient Demo ''sid'' no_config)
        (fst (unsubscribeTickPrices ''EURUSD'' (new_StreamingXTBClient Demo ''sid'' no_config)))
        = [[(''command'', JStr ''stopTickPrices''), (''symbol'', JStr ''EURUSD'')]]
   \<and> frame_id [(''command'', JStr ''stopBalance'')] = None
   \<and> frame_id [(''command'', JStr ''stopTickPrices''), (''symbol'', JStr ''EURUSD'')] = None"
  by (simp add: new_StreamingXTBClient_def new_BaseClient_def unsubscribeBalance_def
        unsubscribeTickPrices_def unsubscribeFromStream_def sendCommand_frames spread_def
        frame_id_def)

section \<open>Rejected sends\<close>

text \<open>
  Claim C3 at a failing input. When the socket rejects the send of a correlated call, the
  rejection leaves the \<open>async\<close> executor unhandled: the call's promise stays pending, its
  listener stays registered, and no timeout is armed that could end the call.
\<close>

theorem send_failure_leaves_call_pending:
  "promises send_rejected 0 = Some Pending
   \<and> promises send_rejected 1 = Some (Rejected (Error ''WebSocket is not open''))
   \<and> ws_listeners send_rejected = [OnData 0 ''0.a'']
   \<and> timers send_rejected 0 = None
   \<and> queue send_rejected = []
   \<and> sent send_rejected = []
   \<and> log send_rejected = [UnhandledRejection (Error ''WebSocket is not open'')]
   \<and> onTimeout 0 send_rejected = send_rejected"
  by (simp add: send_rejected_def call_result sendDone_def new_XTBClient_def
        new_BaseClient_def settle_def onTimeout_def)

text \<open>
  Claim C7 at a failing input. The first ping is awaited by the \<open>open\<close> handler outside its
  \<open>try\<close>: when its send is rejected, the handler ends with an unhandled rejection before
  \<open>setInterval\<close>, so no keepalive loop exists and nothing is written by \<open>console.error\<close>.
  A rejected periodic ping, in contrast, is logged and leaves the interval armed.
\<close>

theorem first_ping_failure_stops_keepalive:
  "pingIntervalHandle first_ping_rejected = None
   \<and> log first_ping_rejected
        = [Emit ''open'' None, WsPing, UnhandledRejection (Error ''WebSocket is not open'')]
   \<and> queue first_ping_rejected = []
   \<and> step Tick first_ping_rejected = first_ping_rejected
   \<and> pingIntervalHandle later_ping_rejected = Some 10000
   \<and> intervalCleared later_ping_rejected = False
   \<and> log later_ping_rejected
        = [Emit ''open'' None, WsPing, WsPing, ConsoleError (Error ''WebSocket is not open'')]"
  by (simp add: first_ping_rejected_def later_ping_rejected_def onOpen_def onTick_def ping_def
        sendCommand_def sendThrottled_def sendDone_def new_XTBClient_def new_BaseClient_def
        settle_def spread_def pingPeriod_def no_config_def Let_def)

end
